theory Spec2Isabelle
  imports Main
begin

section \<open>Text as Python sees it\<close>

text \<open>
  A Python \<open>str\<close> is modelled as a \<open>string\<close>: a list of characters, each read as the code
  point of the same number (U+0000 to U+00FF).  The character classes below are those of
  Python 3 on that range: \<open>str.isspace\<close> (used by \<open>strip\<close> and \<open>split\<close>), the class \<open>\w\<close> of
  the \<open>re\<close> module on \<open>str\<close> patterns, and \<open>str.lower\<close>.  Text with code points above U+00FF
  is outside the model.
\<close>

definition isspace :: "char \<Rightarrow> bool" where
  "isspace c = ((of_char c :: nat) \<in> {9, 10, 11, 12, 13, 28, 29, 30, 31, 32, 133, 160})"

definition isword :: "char \<Rightarrow> bool" where
  "isword c =
     (let n = (of_char c :: nat)
      in (48 \<le> n \<and> n \<le> 57) \<or> (65 \<le> n \<and> n \<le> 90) \<or> n = 95 \<or> (97 \<le> n \<and> n \<le> 122)
         \<or> n \<in> {170, 178, 179, 181, 185, 186, 188, 189, 190}
         \<or> (192 \<le> n \<and> n \<noteq> 215 \<and> n \<noteq> 247))"

definition lower_char :: "char \<Rightarrow> char" where
  "lower_char c =
     (let n = (of_char c :: nat)
      in if (65 \<le> n \<and> n \<le> 90) \<or> (192 \<le> n \<and> n \<le> 222 \<and> n \<noteq> 215)
         then char_of (n + 32) else c)"

definition lower :: "string \<Rightarrow> string" where
  "lower s = map lower_char s"

text \<open>\<open>s.startswith(p)\<close>.\<close>

fun startswith :: "string \<Rightarrow> string \<Rightarrow> bool" where
  "startswith s [] = True"
| "startswith [] (p # ps) = False"
| "startswith (c # cs) (p # ps) = (c = p \<and> startswith cs ps)"

text \<open>\<open>sub in s\<close> on strings: \<open>sub\<close> occurs in \<open>s\<close> as a contiguous run.\<close>

fun py_in :: "string \<Rightarrow> string \<Rightarrow> bool" where
  "py_in sub [] = (sub = [])"
| "py_in sub (c # cs) = (startswith (c # cs) sub \<or> py_in sub cs)"

text \<open>\<open>s.strip()\<close>: leading and trailing whitespace removed.\<close>

definition strip :: "string \<Rightarrow> string" where
  "strip s = rev (dropWhile isspace (rev (dropWhile isspace s)))"

text \<open>\<open>s.split()\<close>: the maximal runs of non-whitespace characters, in order.\<close>

fun split_ws_from :: "string \<Rightarrow> string \<Rightarrow> string list" where
  "split_ws_from cur [] = (if cur = [] then [] else [cur])"
| "split_ws_from cur (c # cs) =
     (if isspace c then (if cur = [] then [] else [cur]) @ split_ws_from [] cs
      else split_ws_from (cur @ [c]) cs)"

definition split_ws :: "string \<Rightarrow> string list" where
  "split_ws s = split_ws_from [] s"

text \<open>\<open>sep.join(parts)\<close>.\<close>

fun join :: "string \<Rightarrow> string list \<Rightarrow> string" where
  "join sep [] = []"
| "join sep [x] = x"
| "join sep (x # y # ys) = x @ sep @ join sep (y # ys)"

section \<open>Format detection\<close>

text \<open>\<open>any(w in msg for w in ws)\<close>.\<close>

definition any_in :: "string list \<Rightarrow> string \<Rightarrow> bool" where
  "any_in ws msg = list_ex (\<lambda>w. py_in w msg) ws"

definition detect_format :: "string \<Rightarrow> string" where
  "detect_format user_msg =
     (let msg = lower user_msg
      in if any_in [''pie chart'', ''bar chart'', ''chart'', ''line chart'', ''graph''] msg
         then ''chart''
         else if any_in [''table'', ''tabular''] msg then ''table''
         else ''default'')"

definition detect_chart_type :: "string \<Rightarrow> string" where
  "detect_chart_type user_msg =
     (let msg = lower user_msg
      in if py_in ''bar'' msg then ''bar''
         else if py_in ''line'' msg then ''line''
         else ''pie'')"

section \<open>Query extraction\<close>

text \<open>
  \<open>re.search(r'([\w.-]+/[\w.-]+)', user_msg)\<close>.  The character class holds no slash, so
  at a given start the first greedy run must be the whole run of class characters there, a
  slash must follow it, and the second run is the longest one after the slash.  The search
  returns the match at the leftmost start that has one.
\<close>

definition repo_char :: "char \<Rightarrow> bool" where
  "repo_char c = (isword c \<or> c = CHR ''.'' \<or> c = CHR ''-'')"

definition repo_match_here :: "string \<Rightarrow> string option" where
  "repo_match_here s =
     (let owner = takeWhile repo_char s; r = dropWhile repo_char s
      in case r of
           [] \<Rightarrow> None
         | d # t \<Rightarrow>
             if owner \<noteq> [] \<and> d = CHR ''/'' \<and> takeWhile repo_char t \<noteq> []
             then Some (owner @ CHR ''/'' # takeWhile repo_char t)
             else None)"

fun repo_search :: "string \<Rightarrow> string option" where
  "repo_search [] = None"
| "repo_search (c # cs) =
     (case repo_match_here (c # cs) of
        Some tok \<Rightarrow> Some tok
      | None \<Rightarrow> repo_search cs)"

text \<open>
  The noise-word pattern \<open>\b(show|display|...|order)\b\<close>, alternatives in the order of
  the source.  Every alternative begins and ends with a letter, so the leading \<open>\b\<close> holds
  exactly when the character before is not a word character (or there is none), and the
  trailing \<open>\b\<close> exactly when the character after is not a word character (or there is
  none).
\<close>

definition noise_words :: "string list" where
  "noise_words =
     [''show'', ''display'', ''list'', ''get'', ''find'', ''search'', ''give'', ''me'', ''the'',
      ''a'', ''an'', ''in'', ''as'', ''for'', ''of'',
      ''with'', ''top'', ''most'', ''popular'', ''trending'', ''recent'', ''latest'', ''new'',
      ''all'', ''some'',
      ''table'', ''chart'', ''pie'', ''bar'', ''line'', ''tabular'', ''format'', ''graph'',
      ''repositories'', ''repository'', ''repos'', ''repo'', ''projects'', ''issues'',
      ''pull requests'', ''prs'', ''bugs'',
      ''by'', ''language'', ''stars'', ''sorted'', ''sort'', ''order'']"

definition word_end :: "string \<Rightarrow> bool" where
  "word_end rest = (case rest of [] \<Rightarrow> True | c # _ \<Rightarrow> \<not> isword c)"

text \<open>The first alternative that matches at the head of \<open>s\<close>, as the length it consumes.\<close>

definition match_noise :: "string \<Rightarrow> nat option" where
  "match_noise s =
     map_option length
       (find (\<lambda>w. startswith s w \<and> word_end (drop (length w) s)) noise_words)"

text \<open>
  \<open>re.sub(pattern, '', msg)\<close>: scan from the left; where the pattern matches, drop the
  match and go on behind it; elsewhere keep the character.  \<open>prev\<close> tells whether the
  character before the current position is a word character.
\<close>

function noise_sub :: "bool \<Rightarrow> string \<Rightarrow> string" where
  "noise_sub prev [] = []"
| "noise_sub prev (c # cs) =
     (case (if prev then None else match_noise (c # cs)) of
        Some n \<Rightarrow> (if n = 0 then c # noise_sub (isword c) cs
                   else noise_sub True (drop n (c # cs)))
      | None \<Rightarrow> c # noise_sub (isword c) cs)"
  by pat_completeness auto
termination
  by (relation "measure (\<lambda>(prev, s). length s)") auto

definition languages :: "string list" where
  "languages =
     [''python'', ''javascript'', ''typescript'', ''java'', ''go'', ''rust'',
      ''c++'', ''ruby'', ''swift'', ''kotlin'', ''dart'', ''php'', ''scala'', ''c'', ''shell'']"

definition keywords_of :: "string \<Rightarrow> string list" where
  "keywords_of msg =
     map strip (filter (\<lambda>w. length (strip w) > 2) (split_ws (noise_sub False msg)))"

definition search_type_of :: "string \<Rightarrow> string" where
  "search_type_of msg =
     (if any_in [''issue'', ''bug'', ''issues''] msg then ''issues''
      else if any_in [''pull request'', ''pr '', ''prs'', ''pull requests''] msg then ''prs''
      else ''repos'')"

definition build_query :: "string \<Rightarrow> string list \<Rightarrow> string" where
  "build_query msg keywords =
     (let lang_parts = map (\<lambda>k. ''language:'' @ k) (filter (\<lambda>k. k \<in> set languages) keywords);
          topic_parts = filter (\<lambda>k. k \<notin> set languages) keywords;
          parts = topic_parts @ lang_parts;
          parts = (if py_in ''popular'' msg \<or> py_in ''top'' msg \<or> py_in ''trending'' msg
                   then parts @ [''stars:>100''] else parts)
      in if parts \<noteq> [] then join '' '' parts else ''stars:>1000'')"

definition extract_search_params :: "string \<Rightarrow> string \<times> string \<times> string" where
  "extract_search_params user_msg =
     (let msg = lower user_msg;
          search_type = search_type_of msg;
          repo_match = repo_search user_msg;
          keywords = keywords_of msg
      in case (if search_type = ''issues'' \<or> search_type = ''prs'' then repo_match else None) of
           Some tok \<Rightarrow> (search_type, ''repo:'' @ tok, ''created'')
         | None \<Rightarrow>
             if keywords \<noteq> [] then (search_type, build_query msg keywords, ''stars'')
             else (search_type, ''stars:>1000'', ''stars''))"

section \<open>Numbers\<close>

datatype py_error = AttributeError | TypeError | ValueError | OverflowError | ZeroDivisionError

definition hex_digit :: "nat \<Rightarrow> char" where
  "hex_digit n = (if n < 10 then char_of (48 + n) else char_of (87 + n))"

text \<open>\<open>str(n)\<close> of an integer: its decimal numeral, with a minus sign when negative.\<close>

function str_nat :: "int \<Rightarrow> string" where
  "str_nat n = (if n < 10 then [char_of (48 + n)] else str_nat (n div 10) @ [char_of (48 + n mod 10)])"
  by pat_completeness auto
termination
  by (relation "measure nat") auto

declare str_nat.simps [simp del]

definition str_int :: "int \<Rightarrow> string" where
  "str_int i = (if i < 0 then CHR ''-'' # str_nat (- i) else str_nat i)"

text \<open>
  A finite \<open>float\<close> is a triple \<open>(neg, m, e)\<close> of a sign, a significand \<open>m \<ge> 0\<close> and a binary
  exponent; its value is \<open>m \<times> 2\<^sup>e\<close>, negated when \<open>neg\<close> holds.  Python's floats are
  IEEE 754 doubles: 53 significant bits, least normal exponent \<open>-1022\<close>, and no finite value
  of \<open>2\<^sup>1\<^sup>0\<^sup>2\<^sup>4\<close> or more.
\<close>

type_synonym double = "bool \<times> int \<times> int"

text \<open>The nearest integer to \<open>num / den\<close> (for \<open>den > 0\<close>), ties going to the even one.\<close>

definition round_half_even :: "int \<Rightarrow> int \<Rightarrow> int" where
  "round_half_even num den =
     (let q = num div den; r = num mod den
      in if 2 * r < den then q
         else if den < 2 * r then q + 1
         else if even q then q else q + 1)"

function floor_log2 :: "int \<Rightarrow> int" where
  "floor_log2 n = (if n < 2 then 0 else 1 + floor_log2 (n div 2))"
  by pat_completeness auto
termination
  by (relation "measure nat") auto

declare floor_log2.simps [simp del]

text \<open>\<open>\<lfloor>log\<^sub>2 (a / b)\<rfloor>\<close> for positive \<open>a\<close> and \<open>b\<close>.\<close>

definition log2_quot :: "int \<Rightarrow> int \<Rightarrow> int" where
  "log2_quot a b =
     (if b \<le> a then floor_log2 (a div b)
      else - (1 + floor_log2 ((b - 1) div a)))"

text \<open>
  \<open>a / b\<close> on integers (true division): the double nearest to the exact quotient, ties to
  even; \<open>OverflowError\<close> when that would be \<open>2\<^sup>1\<^sup>0\<^sup>2\<^sup>4\<close> or more in magnitude.
\<close>

definition true_div :: "int \<Rightarrow> int \<Rightarrow> py_error + double" where
  "true_div a b =
     (if b = 0 then Inl ZeroDivisionError
      else
        let neg = ((a < 0) \<noteq> (b < 0))
        in if a = 0 then Inr (neg, 0, 0)
           else
             let e = max (log2_quot \<bar>a\<bar> \<bar>b\<bar>) (- 1022);
                 sh = e - 52;
                 m = round_half_even (\<bar>a\<bar> * 2 ^ nat (- sh)) (\<bar>b\<bar> * 2 ^ nat sh)
             in if 2 ^ 1024 \<le> m * 2 ^ nat sh then Inl OverflowError else Inr (neg, m, sh))"

text \<open>
  The format \<open>.1f\<close>: the exact value of the double, rounded to one decimal with ties to
  even, written as sign, integer part, point and one digit.
\<close>

definition format_1f :: "double \<Rightarrow> string" where
  "format_1f d =
     (case d of (neg, m, e) \<Rightarrow>
        let t = round_half_even (10 * m * 2 ^ nat e) (2 ^ nat (- e))
        in (if neg then ''-'' else []) @ str_nat (t div 10) @ ''.'' @ str_nat (t mod 10))"

text \<open>\<open>_fmt_number\<close> after \<open>n = int(n)\<close>.\<close>

definition fmt_int :: "int \<Rightarrow> py_error + string" where
  "fmt_int n =
     (if n \<ge> 1000000 then
        (case true_div n 1000000 of
           Inl err \<Rightarrow> Inl err
         | Inr d \<Rightarrow> Inr (format_1f d @ ''M''))
      else if n \<ge> 1000 then
        (case true_div n 1000 of
           Inl err \<Rightarrow> Inl err
         | Inr d \<Rightarrow> Inr (format_1f d @ ''k''))
      else Inr (str_int n))"

section \<open>JSON values\<close>

text \<open>
  What \<open>resp.json()\<close> returns: \<open>None\<close>, booleans, integers, strings, lists and dicts.  A
  dict is an association list in insertion order; a key that occurs twice stands for its
  first entry.  JSON numbers with a fraction or an exponent (Python floats) are outside
  the model, and so is the interpreter's limit on the length of conversions between \<open>int\<close>
  and \<open>str\<close> (4300 digits by default).
\<close>

datatype val = VNone | VBool bool | VInt int | VStr string | VList "val list" | VDict "(string \<times> val) list"

text \<open>Sequencing of steps that may raise: the first exception ends the computation.\<close>

definition ebind :: "py_error + 'a \<Rightarrow> ('a \<Rightarrow> py_error + 'b) \<Rightarrow> py_error + 'b" where
  "ebind m f = (case m of Inl err \<Rightarrow> Inl err | Inr x \<Rightarrow> f x)"

text \<open>Truth value, as \<open>not x\<close>, \<open>if x\<close> and \<open>x or y\<close> test it.\<close>

fun truthy :: "val \<Rightarrow> bool" where
  "truthy VNone = False"
| "truthy (VBool b) = b"
| "truthy (VInt i) = (i \<noteq> 0)"
| "truthy (VStr s) = (s \<noteq> [])"
| "truthy (VList xs) = (xs \<noteq> [])"
| "truthy (VDict kvs) = (kvs \<noteq> [])"

text \<open>\<open>d.get(key, default)\<close>; only a dict has the method.\<close>

fun py_get :: "val \<Rightarrow> string \<Rightarrow> val \<Rightarrow> py_error + val" where
  "py_get (VDict kvs) key dflt = Inr (case map_of kvs key of Some v \<Rightarrow> v | None \<Rightarrow> dflt)"
| "py_get _ key dflt = Inl AttributeError"

text \<open>\<open>len(x)\<close>.\<close>

fun py_len :: "val \<Rightarrow> py_error + int" where
  "py_len (VStr s) = Inr (int (length s))"
| "py_len (VList xs) = Inr (int (length xs))"
| "py_len (VDict kvs) = Inr (int (length (remdups (map fst kvs))))"
| "py_len _ = Inl TypeError"

text \<open>
  \<open>repr\<close> of a string: single quotes unless the string has a single quote and no double
  quote; backslash and the chosen quote are escaped, tab, newline and return have their
  short forms, and the other non-printable characters are written \<open>\xhh\<close>.
\<close>

definition repr_char :: "char \<Rightarrow> char \<Rightarrow> string" where
  "repr_char quote c =
     (let n = (of_char c :: nat)
      in if c = quote \<or> c = CHR 0x5C then [CHR 0x5C, c]
         else if n = 9 then [CHR 0x5C, CHR ''t'']
         else if n = 10 then [CHR 0x5C, CHR ''n'']
         else if n = 13 then [CHR 0x5C, CHR ''r'']
         else if n < 32 \<or> (127 \<le> n \<and> n \<le> 160) \<or> n = 173
           then [CHR 0x5C, CHR ''x'', hex_digit (n div 16), hex_digit (n mod 16)]
         else [c])"

definition repr_str :: "string \<Rightarrow> string" where
  "repr_str s =
     (let quote = (if CHR 0x27 \<in> set s \<and> CHR 0x22 \<notin> set s then CHR 0x22 else CHR 0x27)
      in [quote] @ concat (map (repr_char quote) s) @ [quote])"

text \<open>\<open>repr(x)\<close>; \<open>seen\<close> holds the keys of a dict already written.\<close>

fun py_repr :: "val \<Rightarrow> string"
  and repr_elems :: "val list \<Rightarrow> string list"
  and repr_items :: "string list \<Rightarrow> (string \<times> val) list \<Rightarrow> string list" where
  "py_repr VNone = ''None''"
| "py_repr (VBool b) = (if b then ''True'' else ''False'')"
| "py_repr (VInt i) = str_int i"
| "py_repr (VStr s) = repr_str s"
| "py_repr (VList xs) = ''['' @ join '', '' (repr_elems xs) @ '']''"
| "py_repr (VDict kvs) = ''{'' @ join '', '' (repr_items [] kvs) @ ''}''"
| "repr_elems [] = []"
| "repr_elems (x # xs) = py_repr x # repr_elems xs"
| "repr_items seen [] = []"
| "repr_items seen ((k, v) # kvs) =
     (if k \<in> set seen then repr_items seen kvs
      else (repr_str k @ '': '' @ py_repr v) # repr_items (k # seen) kvs)"

text \<open>\<open>str(x)\<close>, which is also what an f-string field \<open>{x}\<close> writes.\<close>

definition py_str :: "val \<Rightarrow> string" where
  "py_str v = (case v of VStr s \<Rightarrow> s | _ \<Rightarrow> py_repr v)"

text \<open>
  \<open>int(x)\<close>.  A string is accepted when, between optional surrounding whitespace, it is an
  optional sign followed by decimal digits, single underscores allowed between digits.
\<close>

definition isdigit :: "char \<Rightarrow> bool" where
  "isdigit c = (let n = (of_char c :: nat) in 48 \<le> n \<and> n \<le> 57)"

definition int_space :: "char \<Rightarrow> bool" where
  "int_space c = ((of_char c :: nat) \<in> {9, 10, 11, 12, 13, 32, 133, 160})"

fun digits_ok :: "string \<Rightarrow> bool" where
  "digits_ok [] = False"
| "digits_ok [c] = isdigit c"
| "digits_ok (c # d # cs) =
     (isdigit c \<and> (if d = CHR ''_'' then digits_ok cs else digits_ok (d # cs)))"

definition digits_value :: "string \<Rightarrow> int" where
  "digits_value ds = foldl (\<lambda>acc c. 10 * acc + (of_char c - 48)) 0 (filter isdigit ds)"

definition int_of_str :: "string \<Rightarrow> py_error + int" where
  "int_of_str s =
     (let t = rev (dropWhile int_space (rev (dropWhile int_space s)));
          neg = (t \<noteq> [] \<and> hd t = CHR ''-'');
          body = (if t \<noteq> [] \<and> (hd t = CHR ''-'' \<or> hd t = CHR ''+'') then tl t else t)
      in if digits_ok body then Inr (if neg then - digits_value body else digits_value body)
         else Inl ValueError)"

fun py_int :: "val \<Rightarrow> py_error + int" where
  "py_int (VInt i) = Inr i"
| "py_int (VBool b) = Inr (if b then 1 else 0)"
| "py_int (VStr s) = int_of_str s"
| "py_int _ = Inl TypeError"

section \<open>Simple formatters\<close>

definition fmt_number :: "val \<Rightarrow> py_error + string" where
  "fmt_number n = (if n = VNone then Inr ''0'' else ebind (py_int n) fmt_int)"

definition trunc :: "val \<Rightarrow> nat \<Rightarrow> string" where
  "trunc s len =
     (if \<not> truthy s then ''-''
      else let t = py_str s in if length t > len then take len t @ ''...'' else t)"

section \<open>Tool execution\<close>

text \<open>
  The outcome of the HTTP call inside the \<open>try\<close> block: either an exception was raised
  (carried as its \<open>str(e)\<close>), or the response arrived and \<open>resp.text\<close> is the given text.
\<close>

datatype tool_outcome = ToolRaised string | ToolText string

text \<open>
  \<open>json.dumps\<close> of a string with the default \<open>ensure_ascii=True\<close>: backslash and double quote
  are escaped, the control characters with a short form get it, and every other character
  outside the printable ASCII range becomes \<open>\u00xx\<close>.
\<close>

definition json_escape_char :: "char \<Rightarrow> string" where
  "json_escape_char c =
     (let n = (of_char c :: nat)
      in if c = CHR 0x5C then [CHR 0x5C, CHR 0x5C]
         else if c = CHR 0x22 then [CHR 0x5C, CHR 0x22]
         else if n = 8 then [CHR 0x5C, CHR ''b'']
         else if n = 12 then [CHR 0x5C, CHR ''f'']
         else if n = 10 then [CHR 0x5C, CHR ''n'']
         else if n = 13 then [CHR 0x5C, CHR ''r'']
         else if n = 9 then [CHR 0x5C, CHR ''t'']
         else if n < 32 \<or> 126 < n
           then [CHR 0x5C, CHR ''u'', CHR ''0'', CHR ''0'', hex_digit (n div 16), hex_digit (n mod 16)]
         else [c])"

definition json_dumps_str :: "string \<Rightarrow> string" where
  "json_dumps_str s = [CHR 0x22] @ concat (map json_escape_char s) @ [CHR 0x22]"

text \<open>\<open>json.dumps({"error": msg})\<close>.\<close>

definition json_dumps_error :: "string \<Rightarrow> string" where
  "json_dumps_error msg = ''{'' @ json_dumps_str ''error'' @ '': '' @ json_dumps_str msg @ ''}''"

definition truncation_marker :: string where
  "truncation_marker = CHR 0x0A # ''... (truncated)''"

definition execute_tool :: "tool_outcome \<Rightarrow> string" where
  "execute_tool outcome =
     (case outcome of
        ToolText result \<Rightarrow>
          if length result > 6000 then take 6000 result @ truncation_marker else result
      | ToolRaised e \<Rightarrow> json_dumps_error e)"

section \<open>Response cleaning\<close>

text \<open>
  \<open>re.sub(r'<\|im_start\|>.*', '', content, flags=re.DOTALL)\<close>: with \<open>DOTALL\<close> the match
  runs from the first occurrence of the token to the end of the text.
\<close>

fun cut_at :: "string \<Rightarrow> string \<Rightarrow> string" where
  "cut_at tok [] = []"
| "cut_at tok (c # cs) = (if startswith (c # cs) tok then [] else c # cut_at tok cs)"

text \<open>
  \<open>re.sub\<close> of a literal token by the empty string: every occurrence found scanning from
  the left is dropped, and the scan goes on behind it.  The tokens are non-empty.
\<close>

function remove_all :: "string \<Rightarrow> string \<Rightarrow> string" where
  "remove_all tok [] = []"
| "remove_all tok (c # cs) =
     (if tok \<noteq> [] \<and> startswith (c # cs) tok then remove_all tok (drop (length tok) (c # cs))
      else c # remove_all tok cs)"
  by pat_completeness auto
termination
  by (relation "measure (\<lambda>(tok, s). length s)") auto

definition strip_tokens :: "string \<Rightarrow> string" where
  "strip_tokens content =
     remove_all ''<|endoftext|>'' (remove_all ''<|im_end|>'' (cut_at ''<|im_start|>'' content))"

text \<open>\<open>s.split(d)\<close> for a single character \<open>d\<close>; the result is never empty.\<close>

fun split_from :: "char \<Rightarrow> string \<Rightarrow> string \<Rightarrow> string list" where
  "split_from d cur [] = [cur]"
| "split_from d cur (c # cs) =
     (if c = d then cur # split_from d [] cs else split_from d (cur @ [c]) cs)"

definition split_on :: "char \<Rightarrow> string \<Rightarrow> string list" where
  "split_on d s = split_from d [] s"

definition nl :: string where
  "nl = [CHR 0x0A]"

definition chart_starters :: "string list" where
  "chart_starters = [''pie'', ''pie showData'', ''xychart-beta'', ''graph'', ''flowchart'', ''gantt'']"

text \<open>
  One round of the fencing loop, at \<open>line\<close> with the lines \<open>rest\<close> still ahead
  (\<open>lines[i + 1]\<close> is the head of \<open>rest\<close>, \<open>lines[i + 2]\<close> the one after).  It returns what
  the round appends to \<open>result\<close> and the new \<open>in_mermaid\<close> and \<open>in_code\<close>.
\<close>

definition fence_step :: "bool \<Rightarrow> bool \<Rightarrow> string \<Rightarrow> string list \<Rightarrow> string list \<times> bool \<times> bool" where
  "fence_step in_mermaid in_code line rest =
     (let stripped = strip line;
          in_code1 = (if startswith stripped ''```'' then \<not> in_code else in_code);
          opens = (\<not> in_code1 \<and> \<not> in_mermaid \<and> stripped \<in> set chart_starters);
          in_mermaid2 = (in_mermaid \<or> opens);
          in_code2 = (in_code1 \<or> opens);
          closes = (in_mermaid2 \<and>
                    (case rest of
                       [] \<Rightarrow> False
                     | next_line # after \<Rightarrow>
                         strip next_line = [] \<and>
                         (case after of [] \<Rightarrow> True | l2 # _ \<Rightarrow> \<not> startswith l2 ''    '')))
      in ((if opens then [''```mermaid''] else []) @ [line] @ (if closes then [''```''] else []),
          in_mermaid2 \<and> \<not> closes,
          in_code2 \<and> \<not> closes))"

fun fence_loop :: "bool \<Rightarrow> bool \<Rightarrow> string list \<Rightarrow> string list" where
  "fence_loop in_mermaid in_code [] = (if in_mermaid then [''```''] else [])"
| "fence_loop in_mermaid in_code (line # rest) =
     (case fence_step in_mermaid in_code line rest of
        (out, in_mermaid', in_code') \<Rightarrow> out @ fence_loop in_mermaid' in_code' rest)"

text \<open>The loop variables \<open>(in_mermaid, in_code)\<close> when the loop arrives at line \<open>n\<close>.\<close>

fun fence_state :: "bool \<Rightarrow> bool \<Rightarrow> string list \<Rightarrow> nat \<Rightarrow> bool \<times> bool" where
  "fence_state in_mermaid in_code lines 0 = (in_mermaid, in_code)"
| "fence_state in_mermaid in_code [] (Suc n) = (in_mermaid, in_code)"
| "fence_state in_mermaid in_code (line # rest) (Suc n) =
     (case fence_step in_mermaid in_code line rest of
        (out, in_mermaid', in_code') \<Rightarrow> fence_state in_mermaid' in_code' rest n)"

definition clean_response :: "string \<Rightarrow> string" where
  "clean_response content =
     strip (join nl (fence_loop False False (split_on (CHR 0x0A) (strip_tokens content))))"

section \<open>Table renderers\<close>

text \<open>
  \<open>items[:15]\<close> as the \<open>for\<close> loop walks it: the first fifteen elements of a list, the first
  fifteen characters of a string.  Other values cannot be sliced: the expression raises
  (for a dict \<open>TypeError\<close> up to Python 3.11, \<open>KeyError\<close> later; the model says \<open>TypeError\<close>).
\<close>

fun slice15 :: "val \<Rightarrow> py_error + val list" where
  "slice15 (VList xs) = Inr (take 15 xs)"
| "slice15 (VStr s) = Inr (map (\<lambda>c. VStr [c]) (take 15 s))"
| "slice15 _ = Inl TypeError"

text \<open>
  \<open>for i, r in enumerate(rows, i0): lines.append(row(i, r))\<close>: the rows in order, numbered
  from \<open>i0\<close>; the first row that raises ends the loop.
\<close>

fun rows_from :: "(int \<Rightarrow> val \<Rightarrow> py_error + string) \<Rightarrow> int \<Rightarrow> val list \<Rightarrow> py_error + string list" where
  "rows_from row i [] = Inr []"
| "rows_from row i (r # rs) =
     ebind (row i r) (\<lambda>line. ebind (rows_from row (i + 1) rs) (\<lambda>lines. Inr (line # lines)))"

definition table_lines :: "string list \<Rightarrow> (int \<Rightarrow> val \<Rightarrow> py_error + string) \<Rightarrow> val \<Rightarrow> py_error + string list" where
  "table_lines header row items =
     ebind (slice15 items) (\<lambda>rs. ebind (rows_from row 1 rs) (\<lambda>rows. Inr (header @ rows)))"

definition repos_header :: "string list" where
  "repos_header =
     [''| # | Repository | Stars | Language | Description |'',
      ''|---|-----------|-------|----------|-------------|'']"

definition repos_row :: "int \<Rightarrow> val \<Rightarrow> py_error + string" where
  "repos_row i r =
     ebind (py_get r ''name'' (VStr ''?'')) (\<lambda>short_name.
     ebind (py_get r ''full_name'' short_name) (\<lambda>name.
     ebind (py_get r ''html_url'' (VStr ''#'')) (\<lambda>url.
     ebind (py_get r ''stargazers_count'' (VInt 0)) (\<lambda>count.
     ebind (fmt_number count) (\<lambda>stars.
     ebind (py_get r ''language'' VNone) (\<lambda>language.
     ebind (py_get r ''description'' (VStr ''-'')) (\<lambda>description.
       let lang = (if truthy language then language else VStr ''-'');
           desc = trunc description 60
       in Inr (''| '' @ str_int i @ '' | ['' @ py_str name @ '']('' @ py_str url @ '') | ''
               @ stars @ '' | '' @ py_str lang @ '' | '' @ desc @ '' |''))))))))"

definition repos_table_lines :: "val \<Rightarrow> py_error + string list" where
  "repos_table_lines items = table_lines repos_header repos_row items"

definition repos_table :: "val \<Rightarrow> py_error + string" where
  "repos_table items = ebind (repos_table_lines items) (\<lambda>lines. Inr (join nl lines))"

definition issues_header :: "string list" where
  "issues_header =
     [''| # | State | Issue | Author | Created |'',
      ''|---|-------|-------|--------|---------|'']"

text \<open>The shared tail of an issue or pull-request row, after \<open>state\<close> is known.\<close>

definition issue_cells :: "int \<Rightarrow> string \<Rightarrow> val \<Rightarrow> py_error + string" where
  "issue_cells i state iss =
     ebind (py_get iss ''title'' (VStr ''?'')) (\<lambda>title.
     ebind (py_get iss ''html_url'' (VStr ''#'')) (\<lambda>url.
     ebind (py_get iss ''number'' (VStr [])) (\<lambda>num.
     ebind (py_get iss ''user'' (VDict [])) (\<lambda>user.
     ebind (py_get user ''login'' (VStr ''?'')) (\<lambda>author.
     ebind (py_get iss ''created_at'' (VStr [])) (\<lambda>created_at.
       Inr (''| '' @ str_int i @ '' | '' @ state @ '' | [#'' @ py_str num @ '' '' @ trunc title 60
            @ '']('' @ py_str url @ '') | @'' @ py_str author @ '' | ''
            @ take 10 (py_str created_at) @ '' |'')))))))"

definition issues_row :: "int \<Rightarrow> val \<Rightarrow> py_error + string" where
  "issues_row i iss =
     ebind (py_get iss ''state'' VNone) (\<lambda>st.
       issue_cells i (if st = VStr ''open'' then ''Open'' else ''Closed'') iss)"

definition issues_table_lines :: "val \<Rightarrow> py_error + string list" where
  "issues_table_lines items = table_lines issues_header issues_row items"

definition issues_table :: "val \<Rightarrow> py_error + string" where
  "issues_table items = ebind (issues_table_lines items) (\<lambda>lines. Inr (join nl lines))"

definition prs_header :: "string list" where
  "prs_header =
     [''| # | State | Pull Request | Author | Created |'',
      ''|---|-------|-------------|--------|---------|'']"

text \<open>\<open>pr.get("pull_request", {}).get("merged_at") or pr.get("merged_at")\<close>.\<close>

definition merged_of :: "val \<Rightarrow> py_error + val" where
  "merged_of pr =
     ebind (py_get pr ''pull_request'' (VDict [])) (\<lambda>inner.
     ebind (py_get inner ''merged_at'' VNone) (\<lambda>m.
       if truthy m then Inr m else py_get pr ''merged_at'' VNone))"

definition prs_row :: "int \<Rightarrow> val \<Rightarrow> py_error + string" where
  "prs_row i pr =
     ebind (merged_of pr) (\<lambda>merged.
     ebind (if truthy merged then Inr ''Merged''
            else ebind (py_get pr ''state'' VNone) (\<lambda>st.
                   Inr (if st = VStr ''open'' then ''Open'' else ''Closed''))) (\<lambda>state.
       issue_cells i state pr))"

definition prs_table_lines :: "val \<Rightarrow> py_error + string list" where
  "prs_table_lines items = table_lines prs_header prs_row items"

definition prs_table :: "val \<Rightarrow> py_error + string" where
  "prs_table items = ebind (prs_table_lines items) (\<lambda>lines. Inr (join nl lines))"

text \<open>
  Records the renderers can format: dicts whose fields, where the renderer looks inside
  them, have the JSON kind it expects (a star count that \<open>_fmt_number\<close> accepts, a \<open>user\<close> and
  a \<open>pull_request\<close> that are dicts when present).
\<close>

definition repo_record :: "val \<Rightarrow> bool" where
  "repo_record r =
     (case r of
        VDict kvs \<Rightarrow>
          (case map_of kvs ''stargazers_count'' of
             None \<Rightarrow> True
           | Some VNone \<Rightarrow> True
           | Some (VBool b) \<Rightarrow> True
           | Some (VInt n) \<Rightarrow> n < (2 ^ 1024 - 2 ^ 970) * 1000000
           | Some _ \<Rightarrow> False)
      | _ \<Rightarrow> False)"

definition is_dict :: "val \<Rightarrow> bool" where
  "is_dict v = (case v of VDict kvs \<Rightarrow> True | _ \<Rightarrow> False)"

definition issue_record :: "val \<Rightarrow> bool" where
  "issue_record r =
     (case r of
        VDict kvs \<Rightarrow> (case map_of kvs ''user'' of None \<Rightarrow> True | Some u \<Rightarrow> is_dict u)
      | _ \<Rightarrow> False)"

definition pr_record :: "val \<Rightarrow> bool" where
  "pr_record r =
     (issue_record r \<and>
      (case r of
         VDict kvs \<Rightarrow> (case map_of kvs ''pull_request'' of None \<Rightarrow> True | Some p \<Rightarrow> is_dict p)
       | _ \<Rightarrow> False))"

section \<open>Direct search\<close>

text \<open>
  The GitHub API is the environment: a function from the request sent to what comes back.
  Either \<open>requests.get\<close> raises (network failure, timeout), or the response arrives and
  \<open>resp.json()\<close> raises (the body is not JSON), or \<open>resp.json()\<close> returns a value.  The
  exceptions are carried as their \<open>str(e)\<close>.
\<close>

record request =
  url :: string
  headers :: "(string \<times> string) list"
  params :: "(string \<times> val) list"
  timeout :: int

datatype http_outcome = HttpRaised string | JsonRaised string | JsonBody val

text \<open>The request \<open>_github_api\<close> hands to \<open>requests.get\<close>.\<close>

definition api_request :: "string \<Rightarrow> string \<Rightarrow> (string \<times> val) list \<Rightarrow> request" where
  "api_request token endpoint ps =
     \<lparr>url = ''https://api.github.com'' @ endpoint,
      headers = [(''Accept'', ''application/vnd.github.v3+json'')]
                @ (if token \<noteq> [] then [(''Authorization'', ''Bearer '' @ token)] else []),
      params = ps,
      timeout = 15\<rparr>"

definition github_api :: "(request \<Rightarrow> http_outcome) \<Rightarrow> string \<Rightarrow> string \<Rightarrow> (string \<times> val) list \<Rightarrow> val" where
  "github_api env token endpoint ps =
     (case env (api_request token endpoint ps) of
        HttpRaised e \<Rightarrow> VDict [(''error'', VStr e)]
      | JsonRaised e \<Rightarrow> VDict [(''error'', VStr e)]
      | JsonBody body \<Rightarrow> body)"

text \<open>The elements a \<open>for\<close> loop or a generator draws from a value.\<close>

fun py_iter :: "val \<Rightarrow> py_error + val list" where
  "py_iter (VList xs) = Inr xs"
| "py_iter (VStr s) = Inr (map (\<lambda>c. VStr [c]) s)"
| "py_iter (VDict kvs) = Inr (map VStr (remdups (map fst kvs)))"
| "py_iter _ = Inl TypeError"

text \<open>\<open>sum(1 for i in xs if test(i))\<close>, where the test may raise.\<close>

fun count_where :: "(val \<Rightarrow> py_error + bool) \<Rightarrow> val list \<Rightarrow> py_error + int" where
  "count_where test [] = Inr 0"
| "count_where test (x # xs) =
     ebind (test x) (\<lambda>b. ebind (count_where test xs) (\<lambda>n. Inr ((if b then 1 else 0) + n)))"

definition is_open :: "val \<Rightarrow> py_error + bool" where
  "is_open i = ebind (py_get i ''state'' VNone) (\<lambda>st. Inr (st = VStr ''open''))"

definition is_merged :: "val \<Rightarrow> py_error + bool" where
  "is_merged i = ebind (merged_of i) (\<lambda>m. Inr (truthy m))"

definition search_params :: "string \<Rightarrow> string \<Rightarrow> (string \<times> val) list" where
  "search_params q sort_by = [(''q'', VStr q), (''sort'', VStr sort_by), (''per_page'', VInt 15)]"

text \<open>
  The part of a branch of \<open>_direct_format\<close> behind the API call: \<open>None\<close> when there are no
  items, else the header followed by what \<open>render\<close> makes of the items.
\<close>

definition found_header :: "val \<Rightarrow> val \<Rightarrow> string \<Rightarrow> string \<Rightarrow> py_error + string" where
  "found_header data items what query =
     ebind (py_len items) (\<lambda>n.
     ebind (py_get data ''total_count'' (VInt n)) (\<lambda>total.
     ebind (fmt_number total) (\<lambda>shown.
       Inr (''Found **'' @ shown @ ''** '' @ what @ '' for `'' @ query @ ''`'' @ nl @ nl))))"

definition issues_chart :: "val \<Rightarrow> py_error + string" where
  "issues_chart items =
     ebind (py_iter items) (\<lambda>xs.
     ebind (count_where is_open xs) (\<lambda>open_count.
     ebind (py_len items) (\<lambda>n.
       Inr (''```mermaid'' @ nl @ ''pie showData'' @ nl @ ''    title \"Issues by State\"'' @ nl
            @ ''    \"Open\" : '' @ str_int open_count @ nl
            @ ''    \"Closed\" : '' @ str_int (n - open_count) @ nl @ ''```''))))"

definition prs_chart :: "val \<Rightarrow> py_error + string" where
  "prs_chart items =
     ebind (py_iter items) (\<lambda>xs.
     ebind (count_where is_open xs) (\<lambda>open_c.
     ebind (count_where is_merged xs) (\<lambda>merged_c.
     ebind (py_len items) (\<lambda>n.
       Inr (''```mermaid'' @ nl @ ''pie showData'' @ nl @ ''    title \"Pull Requests by State\"'' @ nl
            @ ''    \"Open\" : '' @ str_int open_c @ nl
            @ ''    \"Merged\" : '' @ str_int merged_c @ nl
            @ ''    \"Closed\" : '' @ str_int (n - open_c - merged_c) @ nl @ ''```'')))))"

text \<open>
  \<open>_direct_format\<close>.  The result \<open>None\<close> tells the caller to fall back to the model path.
  \<open>_repos_chart\<close> sorts records with \<open>sorted\<close> and scales with floating point; no property
  below depends on it, and it enters as the parameter \<open>repos_chart\<close>.
\<close>

definition direct_format ::
  "(request \<Rightarrow> http_outcome) \<Rightarrow> string \<Rightarrow> (val \<Rightarrow> string \<Rightarrow> py_error + string) \<Rightarrow> string
     \<Rightarrow> py_error + string option" where
  "direct_format env token repos_chart user_msg =
     (let fmt = detect_format user_msg;
          chart_type = detect_chart_type user_msg
      in case extract_search_params user_msg of (search_type, query, sort_by) \<Rightarrow>
        if search_type = ''repos'' then
          (let data = github_api env token ''/search/repositories'' (search_params query sort_by)
           in ebind (py_get data ''items'' (VList [])) (\<lambda>items.
                if \<not> truthy items then Inr None
                else ebind (found_header data items ''repositories'' query) (\<lambda>header.
                       ebind (if fmt = ''table'' then repos_table items
                              else repos_chart items chart_type) (\<lambda>body.
                         Inr (Some (header @ body))))))
        else if search_type = ''issues'' then
          (let data = github_api env token ''/search/issues''
                        (search_params (query @ '' is:issue'') sort_by)
           in ebind (py_get data ''items'' (VList [])) (\<lambda>items.
                if \<not> truthy items then Inr None
                else ebind (found_header data items ''issues'' query) (\<lambda>header.
                       ebind (if fmt = ''table'' then issues_table items
                              else issues_chart items) (\<lambda>body.
                         Inr (Some (header @ body))))))
        else if search_type = ''prs'' then
          (let data = github_api env token ''/search/issues''
                        (search_params (query @ '' is:pr'') sort_by)
           in ebind (py_get data ''items'' (VList [])) (\<lambda>items.
                if \<not> truthy items then Inr None
                else ebind (found_header data items ''pull requests'' query) (\<lambda>header.
                       ebind (if fmt = ''table'' then prs_table items
                              else prs_chart items) (\<lambda>body.
                         Inr (Some (header @ body))))))
        else Inr None)"




section \<open>Properties\<close>

subsection \<open>Strings\<close>

lemma startswith_iff: "startswith s p \<longleftrightarrow> (\<exists>r. s = p @ r)"
  by (induction s p rule: startswith.induct) auto

lemma py_in_iff: "py_in sub s \<longleftrightarrow> (\<exists>pre post. s = pre @ sub @ post)"
proof (induction s)
  case Nil
  then show ?case by auto
next
  case (Cons c cs)
  show ?case
  proof
    assume "py_in sub (c # cs)"
    then consider "startswith (c # cs) sub" | "py_in sub cs" by auto
    then show "\<exists>pre post. c # cs = pre @ sub @ post"
    proof cases
      case 1
      then obtain r where "c # cs = sub @ r" by (auto simp: startswith_iff)
      then have "c # cs = [] @ sub @ r" by simp
      then show ?thesis by blast
    next
      case 2
      then obtain pre post where "cs = pre @ sub @ post" using Cons.IH by auto
      then have "c # cs = (c # pre) @ sub @ post" by simp
      then show ?thesis by blast
    qed
  next
    assume "\<exists>pre post. c # cs = pre @ sub @ post"
    then obtain pre post where e: "c # cs = pre @ sub @ post" by auto
    show "py_in sub (c # cs)"
    proof (cases pre)
      case Nil
      with e have "startswith (c # cs) sub" by (auto simp: startswith_iff)
      then show ?thesis by simp
    next
      case (Cons a pre')
      with e have "cs = pre' @ sub @ post" by simp
      then have "py_in sub cs" using Cons.IH by blast
      then show ?thesis by simp
    qed
  qed
qed

lemma py_in_mid: "py_in sub (pre @ sub @ post)"
  unfolding py_in_iff by blast

lemma join_snoc: "\<exists>pre. join sep (ps @ [x]) = pre @ x"
proof (induction sep ps rule: join.induct)
  case (1 sep)
  then show ?case by simp
next
  case (2 sep y)
  then show ?case by simp
next
  case (3 sep y z zs)
  then obtain pre where "join sep ((z # zs) @ [x]) = pre @ x" by auto
  then have "join sep ((y # z # zs) @ [x]) = (y @ sep @ pre) @ x" by simp
  then show ?case by blast
qed

lemma join_nonempty: "x \<in> set ps \<Longrightarrow> x \<noteq> [] \<Longrightarrow> join sep ps \<noteq> []"
  by (induction sep ps rule: join.induct) auto

lemma keywords_nonempty: "k \<in> set (keywords_of msg) \<Longrightarrow> k \<noteq> []"
  by (auto simp: keywords_of_def)

lemma repo_match_here_shape:
  "repo_match_here s = Some tok \<Longrightarrow>
   \<exists>a b post. s = a @ ''/'' @ b @ post \<and> tok = a @ ''/'' @ b \<and> a \<noteq> [] \<and> b \<noteq> []
     \<and> list_all repo_char a \<and> list_all repo_char b"
proof -
  assume h: "repo_match_here s = Some tok"
  define a where "a = takeWhile repo_char s"
  define r where "r = dropWhile repo_char s"
  have s: "s = a @ r" by (simp add: a_def r_def)
  from h obtain t where r: "r = CHR ''/'' # t" and a: "a \<noteq> []" and b: "takeWhile repo_char t \<noteq> []"
    and tok: "tok = a @ CHR ''/'' # takeWhile repo_char t"
    by (auto simp: repo_match_here_def Let_def a_def r_def split: list.splits if_splits)
  define b where "b = takeWhile repo_char t"
  have t: "t = b @ dropWhile repo_char t" by (simp add: b_def)
  have 1: "s = a @ ''/'' @ b @ dropWhile repo_char t" using s r t by simp
  have 2: "tok = a @ ''/'' @ b" using tok by (simp add: b_def)
  have 3: "list_all repo_char a" "list_all repo_char b"
    by (auto simp: a_def b_def list_all_iff dest: set_takeWhileD)
  have 4: "b \<noteq> []" using b by (simp add: b_def)
  from 1 2 3 4 a show ?thesis by blast
qed

lemma repo_search_shape:
  "repo_search s = Some tok \<Longrightarrow>
   \<exists>pre a b post. s = pre @ a @ ''/'' @ b @ post \<and> tok = a @ ''/'' @ b \<and> a \<noteq> [] \<and> b \<noteq> []
     \<and> list_all repo_char a \<and> list_all repo_char b"
proof (induction s)
  case Nil
  then show ?case by simp
next
  case (Cons c cs)
  show ?case
  proof (cases "repo_match_here (c # cs)")
    case None
    with Cons.prems have "repo_search cs = Some tok" by simp
    from Cons.IH[OF this] obtain pre a b post where
      "cs = pre @ a @ ''/'' @ b @ post" "tok = a @ ''/'' @ b" "a \<noteq> []" "b \<noteq> []"
      "list_all repo_char a" "list_all repo_char b" by blast
    then have "c # cs = (c # pre) @ a @ ''/'' @ b @ post" by simp
    then show ?thesis using \<open>tok = a @ ''/'' @ b\<close> \<open>a \<noteq> []\<close> \<open>b \<noteq> []\<close>
        \<open>list_all repo_char a\<close> \<open>list_all repo_char b\<close> by blast
  next
    case (Some t)
    with Cons.prems have "t = tok" by simp
    with Some repo_match_here_shape obtain a b post where
      "c # cs = a @ ''/'' @ b @ post" "tok = a @ ''/'' @ b" "a \<noteq> []" "b \<noteq> []"
      "list_all repo_char a" "list_all repo_char b" by blast
    then have "c # cs = [] @ a @ ''/'' @ b @ post" by simp
    then show ?thesis using \<open>tok = a @ ''/'' @ b\<close> \<open>a \<noteq> []\<close> \<open>b \<noteq> []\<close>
        \<open>list_all repo_char a\<close> \<open>list_all repo_char b\<close> by blast
  qed
qed


lemma build_query_popular:
  assumes "py_in ''popular'' msg \<or> py_in ''top'' msg \<or> py_in ''trending'' msg"
  shows "\<exists>pre. build_query msg ks = pre @ ''stars:>100''"
proof -
  define parts where "parts = filter (\<lambda>k. k \<notin> set languages) ks
      @ map (\<lambda>k. ''language:'' @ k) (filter (\<lambda>k. k \<in> set languages) ks)"
  have "build_query msg ks = join '' '' (parts @ [''stars:>100''])"
    using assms by (simp add: build_query_def Let_def parts_def)
  then show ?thesis using join_snoc[of "'' ''" parts "''stars:>100''"] by auto
qed

lemma build_query_nonempty:
  assumes "ks \<noteq> []" and "\<forall>k\<in>set ks. k \<noteq> []"
  shows "build_query msg ks \<noteq> []"
proof -
  define parts where "parts = filter (\<lambda>k. k \<notin> set languages) ks
      @ map (\<lambda>k. ''language:'' @ k) (filter (\<lambda>k. k \<in> set languages) ks)"
  define parts' where "parts' = (if py_in ''popular'' msg \<or> py_in ''top'' msg \<or> py_in ''trending'' msg
                   then parts @ [''stars:>100''] else parts)"
  have bq: "build_query msg ks = (if parts' \<noteq> [] then join '' '' parts' else ''stars:>1000'')"
    by (simp add: build_query_def Let_def parts_def parts'_def)
  from assms(1) obtain k where k: "k \<in> set ks" by (cases ks) auto
  have "\<exists>p \<in> set parts. p \<noteq> []"
  proof (cases "k \<in> set languages")
    case True
    then have "''language:'' @ k \<in> set parts" using k by (auto simp: parts_def)
    then show ?thesis by blast
  next
    case False
    then have "k \<in> set parts" using k by (auto simp: parts_def)
    moreover have "k \<noteq> []" using assms(2) k by blast
    ultimately show ?thesis by blast
  qed
  then have "\<exists>p \<in> set parts'. p \<noteq> []" by (auto simp: parts'_def)
  then obtain p where "p \<in> set parts'" "p \<noteq> []" by blast
  then have "join '' '' parts' \<noteq> []" by (rule join_nonempty)
  then show ?thesis using bq by simp
qed

lemma noise_words_nonempty: "w \<in> set noise_words \<Longrightarrow> w \<noteq> []"
  unfolding noise_words_def by auto

text \<open>The guard \<open>n = 0\<close> in \<open>noise_sub\<close> never fires: every alternative is non-empty.\<close>

lemma match_noise_pos: "match_noise s = Some n \<Longrightarrow> 0 < n"
proof -
  assume "match_noise s = Some n"
  then obtain w where f: "find (\<lambda>w. startswith s w \<and> word_end (drop (length w) s)) noise_words = Some w"
    and n: "n = length w"
    by (auto simp: match_noise_def)
  from f have "w \<in> set noise_words"
    by (auto simp: find_Some_iff)
  then show ?thesis using n noise_words_nonempty by auto
qed

subsection \<open>Chart kind\<close>

text \<open>
  C10: \<open>_detect_chart_type\<close> returns \<open>bar\<close> exactly when the lowercased message contains
  \<open>bar\<close> anywhere, \<open>line\<close> exactly when it contains \<open>line\<close> but not \<open>bar\<close>, and \<open>pie\<close>
  exactly when it contains neither; the word \<open>pie\<close> plays no part.
\<close>

theorem detect_chart_type_iff:
  "(detect_chart_type m = ''bar'' \<longleftrightarrow> py_in ''bar'' (lower m)) \<and>
   (detect_chart_type m = ''line'' \<longleftrightarrow> py_in ''line'' (lower m) \<and> \<not> py_in ''bar'' (lower m)) \<and>
   (detect_chart_type m = ''pie'' \<longleftrightarrow> \<not> py_in ''bar'' (lower m) \<and> \<not> py_in ''line'' (lower m)) \<and>
   (py_in ''bar'' (lower m) = py_in ''bar'' (lower m') \<and> py_in ''line'' (lower m) = py_in ''line'' (lower m')
      \<longrightarrow> detect_chart_type m = detect_chart_type m')"
  by (simp add: detect_chart_type_def Let_def)

theorem detect_chart_type_witness:
  "detect_chart_type ''a pie chart for Barcelona'' = ''bar''
   \<and> py_in ''bar'' (lower ''a pie chart for Barcelona'')
   \<and> py_in ''bar'' (lower ''a pie chart for Barcelona'') = py_in ''bar'' (lower ''a chart for Barcelona'')
   \<and> py_in ''line'' (lower ''a pie chart for Barcelona'') = py_in ''line'' (lower ''a chart for Barcelona'')
   \<and> detect_chart_type ''a pie chart for Barcelona'' = detect_chart_type ''a chart for Barcelona''"
proof -
  have a: "py_in ''bar'' (lower ''a pie chart for Barcelona'')" by code_simp
  have b: "py_in ''bar'' (lower ''a pie chart for Barcelona'') = py_in ''bar'' (lower ''a chart for Barcelona'')"
    by code_simp
  have c: "py_in ''line'' (lower ''a pie chart for Barcelona'') = py_in ''line'' (lower ''a chart for Barcelona'')"
    by code_simp
  from detect_chart_type_iff[of "''a pie chart for Barcelona''" "''a chart for Barcelona''"] a b c
  show ?thesis by blast
qed

subsection \<open>Query extraction\<close>

text \<open>
  C3: a message whose lowercased text contains one of the issue keywords (\<open>issue\<close>, \<open>bug\<close>,
  \<open>issues\<close>) is classified as \<open>issues\<close>, whatever pull-request keywords it also contains.
\<close>

theorem issues_first:
  "py_in ''issue'' (lower m) \<or> py_in ''bug'' (lower m) \<or> py_in ''issues'' (lower m) \<Longrightarrow>
   fst (extract_search_params m) = ''issues''
   \<and> fst (extract_search_params m) \<noteq> ''repos'' \<and> fst (extract_search_params m) \<noteq> ''prs''"
  by (auto simp: extract_search_params_def Let_def search_type_of_def any_in_def split: option.splits)

theorem issues_first_witness:
  "py_in ''issue'' (lower ''Open ISSUES and pull requests'')
   \<and> py_in ''pull request'' (lower ''Open ISSUES and pull requests'')
   \<and> fst (extract_search_params ''Open ISSUES and pull requests'') = ''issues''"
proof -
  have h: "py_in ''issue'' (lower ''Open ISSUES and pull requests'')" by code_simp
  have p: "py_in ''pull request'' (lower ''Open ISSUES and pull requests'')" by code_simp
  from h p show ?thesis using issues_first[of "''Open ISSUES and pull requests''"] by simp
qed

text \<open>
  C2: when the owner/name pattern matches and the message classifies as issues or pull
  requests, the query is \<open>repo:\<close> followed by the matched token and nothing else, and the sort
  key is \<open>created\<close>.  The token is a piece of the message: two non-empty runs of word
  characters, dots and hyphens with one slash between them.
\<close>

theorem repo_query:
  assumes "repo_search m = Some tok"
    and "search_type_of (lower m) = ''issues'' \<or> search_type_of (lower m) = ''prs''"
  shows "extract_search_params m = (search_type_of (lower m), ''repo:'' @ tok, ''created'')
    \<and> (\<exists>pre a b post. m = pre @ a @ ''/'' @ b @ post \<and> tok = a @ ''/'' @ b \<and> a \<noteq> [] \<and> b \<noteq> []
          \<and> list_all repo_char a \<and> list_all repo_char b)"
proof
  show "extract_search_params m = (search_type_of (lower m), ''repo:'' @ tok, ''created'')"
    using assms by (auto simp: extract_search_params_def Let_def)
  show "\<exists>pre a b post. m = pre @ a @ ''/'' @ b @ post \<and> tok = a @ ''/'' @ b \<and> a \<noteq> [] \<and> b \<noteq> []
          \<and> list_all repo_char a \<and> list_all repo_char b"
    using assms(1) by (rule repo_search_shape)
qed

theorem repo_query_witness:
  "repo_search ''pie chart of issues in facebook/react'' = Some ''facebook/react''
   \<and> search_type_of (lower ''pie chart of issues in facebook/react'') = ''issues''
   \<and> extract_search_params ''pie chart of issues in facebook/react''
       = (''issues'', ''repo:facebook/react'', ''created'')"
proof -
  have a: "repo_search ''pie chart of issues in facebook/react'' = Some ''facebook/react''"
    by code_simp
  have b: "search_type_of (lower ''pie chart of issues in facebook/react'') = ''issues''"
    by code_simp
  from repo_query[OF a] b show ?thesis using a by simp
qed

text \<open>
  C1, as amended: a message with a popularity word (\<open>popular\<close>, \<open>top\<close>, \<open>trending\<close>) gets a
  query containing \<open>stars:>100\<close> unless it takes the \<open>repo:\<close> branch (an owner/name match in
  a message classified as issues or pull requests).  With keywords left the qualifier is
  the last part of the query; with none left the query is the fallback \<open>stars:>1000\<close>.
\<close>

theorem popular_query:
  assumes "py_in ''popular'' (lower m) \<or> py_in ''top'' (lower m) \<or> py_in ''trending'' (lower m)"
    and "repo_search m = None \<or> search_type_of (lower m) = ''repos''"
  shows "py_in ''stars:>100'' (fst (snd (extract_search_params m)))
    \<and> (if keywords_of (lower m) \<noteq> []
       then \<exists>pre. fst (snd (extract_search_params m)) = pre @ ''stars:>100''
       else fst (snd (extract_search_params m)) = ''stars:>1000'')"
proof -
  have sel: "(if search_type_of (lower m) = ''issues'' \<or> search_type_of (lower m) = ''prs''
              then repo_search m else None) = None"
    using assms(2) by auto
  show ?thesis
  proof (cases "keywords_of (lower m) = []")
    case True
    then have q: "fst (snd (extract_search_params m)) = ''stars:>1000''"
      using sel by (simp add: extract_search_params_def Let_def)
    have "py_in ''stars:>100'' ''stars:>1000''" by code_simp
    then show ?thesis using q True by simp
  next
    case False
    then have q: "fst (snd (extract_search_params m)) = build_query (lower m) (keywords_of (lower m))"
      using sel by (simp add: extract_search_params_def Let_def)
    from build_query_popular[OF assms(1)] obtain pre where
      p: "build_query (lower m) (keywords_of (lower m)) = pre @ ''stars:>100''" by blast
    then have "py_in ''stars:>100'' (build_query (lower m) (keywords_of (lower m)))"
      using py_in_mid[of "''stars:>100''" pre "[]"] by simp
    then show ?thesis using q p False by auto
  qed
qed

theorem popular_query_witness:
  "py_in ''popular'' (lower ''show me a table of popular python repos'')
   \<and> repo_search ''show me a table of popular python repos'' = None
   \<and> fst (snd (extract_search_params ''show me a table of popular python repos''))
       = ''language:python stars:>100''
   \<and> py_in ''stars:>100'' (fst (snd (extract_search_params ''show me a table of popular python repos'')))"
proof -
  have a: "py_in ''popular'' (lower ''show me a table of popular python repos'')" by code_simp
  have b: "repo_search ''show me a table of popular python repos'' = None" by code_simp
  have c: "fst (snd (extract_search_params ''show me a table of popular python repos''))
       = ''language:python stars:>100''" by code_simp
  from popular_query[of "''show me a table of popular python repos''"] a b c show ?thesis by blast
qed

text \<open>
  C1 as stated fails on the \<open>repo:\<close> branch: the message below contains \<open>top\<close>, and its
  query is \<open>repo:facebook/react\<close>.
\<close>

theorem popular_counterexample:
  "py_in ''top'' (lower ''top issues in facebook/react'')
   \<and> \<not> py_in ''stars:>100'' (fst (snd (extract_search_params ''top issues in facebook/react'')))"
  by code_simp

text \<open>
  C9: the query returned by \<open>_extract_search_params\<close> is never the empty string.
\<close>

theorem query_nonempty: "fst (snd (extract_search_params m)) \<noteq> []"
proof (cases "if search_type_of (lower m) = ''issues'' \<or> search_type_of (lower m) = ''prs''
              then repo_search m else None")
  case (Some tok)
  then show ?thesis by (simp add: extract_search_params_def Let_def)
next
  case None
  show ?thesis
  proof (cases "keywords_of (lower m) = []")
    case True
    then show ?thesis using None by (simp add: extract_search_params_def Let_def)
  next
    case False
    then have "build_query (lower m) (keywords_of (lower m)) \<noteq> []"
      using build_query_nonempty keywords_nonempty by blast
    then show ?thesis using None False by (simp add: extract_search_params_def Let_def)
  qed
qed

theorem query_nonempty_witness:
  "fst (snd (extract_search_params [])) = ''stars:>1000''
   \<and> fst (snd (extract_search_params ''show me the top repos'')) = ''stars:>1000''
   \<and> fst (snd (extract_search_params [])) \<noteq> []"
proof -
  have a: "fst (snd (extract_search_params [])) = ''stars:>1000''" by code_simp
  have b: "fst (snd (extract_search_params ''show me the top repos'')) = ''stars:>1000''" by code_simp
  from a b query_nonempty[of "[]"] show ?thesis by simp
qed

subsection \<open>Response cleaning\<close>

lemma join_append:
  "join sep (xs @ ys) =
     (if xs = [] then join sep ys else if ys = [] then join sep xs
      else join sep xs @ sep @ join sep ys)"
proof (induction sep xs rule: join.induct)
  case (1 sep)
  then show ?case by simp
next
  case (2 sep x)
  then show ?case by (cases ys) auto
next
  case (3 sep x y zs)
  then show ?case by auto
qed

lemma join_Cons: "join sep (x # xs) = (if xs = [] then x else x @ sep @ join sep xs)"
  by (cases xs) auto

lemma join_snoc_eq: "join sep (xs @ [x]) = (if xs = [] then x else join sep xs @ sep @ x)"
  by (simp add: join_append)

lemma dropWhile_all: "\<forall>x\<in>set xs. P x \<Longrightarrow> dropWhile P (xs @ ys) = dropWhile P ys"
  by (induction xs) auto

lemma strip_mid:
  assumes "m \<noteq> []" and "\<not> isspace (hd m)" and "\<not> isspace (last m)"
  shows "strip (p @ m @ s) = dropWhile isspace p @ m @ rev (dropWhile isspace (rev s))"
proof -
  obtain h t where m: "m = h # t" using assms(1) by (cases m) auto
  have h: "\<not> isspace h" using assms(2) m by simp
  have front: "dropWhile isspace (p @ m @ s) = dropWhile isspace p @ m @ s"
  proof (cases "\<forall>x\<in>set p. isspace x")
    case True
    then have "dropWhile isspace (p @ m @ s) = dropWhile isspace (m @ s)"
      by (rule dropWhile_all)
    moreover have "dropWhile isspace p = []" using True by simp
    ultimately show ?thesis using h m by simp
  next
    case False
    then show ?thesis by (auto simp: dropWhile_append1)
  qed
  obtain i l where ml: "m = i @ [l]" using assms(1) by (cases m rule: rev_cases) auto
  have l: "\<not> isspace l" using assms(3) ml by simp
  have revm: "rev m = l # rev i" using ml by simp
  have bk: "dropWhile isspace (rev (dropWhile isspace p @ m @ s))
        = dropWhile isspace (rev s) @ rev m @ rev (dropWhile isspace p)"
  proof (cases "\<forall>x\<in>set (rev s). isspace x")
    case True
    then have "dropWhile isspace (rev s @ rev m @ rev (dropWhile isspace p))
        = dropWhile isspace (rev m @ rev (dropWhile isspace p))"
      by (rule dropWhile_all)
    moreover have "dropWhile isspace (rev s) = []" using True by simp
    ultimately show ?thesis using l revm by simp
  next
    case False
    then show ?thesis by (auto simp: dropWhile_append1)
  qed
  show ?thesis unfolding strip_def front bk by simp
qed

lemma dropWhile_last: "dropWhile P xs = [] \<or> last (dropWhile P xs) = last xs"
  by (induction xs) auto

lemma rev_dropWhile_rev_hd:
  "rev (dropWhile P (rev xs)) = [] \<or> hd (rev (dropWhile P (rev xs))) = hd xs"
proof (cases "dropWhile P (rev xs) = []")
  case True
  then show ?thesis by simp
next
  case False
  from dropWhile_last[of P "rev xs"] False
  have a: "last (dropWhile P (rev xs)) = last (rev xs)" by blast
  have b: "xs \<noteq> []" using False by auto
  have "hd (rev (dropWhile P (rev xs))) = last (dropWhile P (rev xs))"
    using False by (simp add: hd_rev)
  also have "\<dots> = last (rev xs)" by (rule a)
  also have "\<dots> = hd xs" using b by (simp add: last_rev)
  finally show ?thesis by simp
qed

lemma fence_loop_split:
  "\<exists>A. fence_loop im ic lines =
       A @ fence_loop (fst (fence_state im ic lines n)) (snd (fence_state im ic lines n)) (drop n lines)"
proof (induction im ic lines n rule: fence_state.induct)
  case (1 im ic lines)
  then show ?case by simp
next
  case (2 im ic n)
  then show ?case by simp
next
  case (3 im ic line rest n)
  obtain out im' ic' where st: "fence_step im ic line rest = (out, im', ic')"
    by (cases "fence_step im ic line rest") auto
  from 3[OF st[symmetric]] obtain A where
    "fence_loop im' ic' rest =
       A @ fence_loop (fst (fence_state im' ic' rest n)) (snd (fence_state im' ic' rest n)) (drop n rest)"
    by auto
  then have "fence_loop im ic (line # rest) =
       (out @ A) @ fence_loop (fst (fence_state im ic (line # rest) (Suc n)))
          (snd (fence_state im ic (line # rest) (Suc n))) (drop (Suc n) (line # rest))"
    using st by simp
  then show ?case by blast
qed

lemma fence_block_tail:
  assumes "list_all (\<lambda>l. strip l \<noteq> []) ys" and "strip blank = []"
    and "rest = [] \<or> \<not> startswith (hd rest) ''    ''"
  shows "fence_loop True ic (x # ys @ blank # rest)
           = x # ys @ ''```'' # fence_loop False False (blank # rest)"
  using assms(1)
proof (induction ys arbitrary: x ic)
  case Nil
  have "fence_step True ic x (blank # rest) = ([x, ''```''], False, False)"
    using assms(2,3) by (cases rest) (auto simp: fence_step_def Let_def)
  then show ?case by simp
next
  case (Cons y ys)
  have "fence_step True ic x (y # ys @ blank # rest)
          = ([x], True, (if startswith (strip x) ''```'' then \<not> ic else ic))"
    using Cons.prems by (auto simp: fence_step_def Let_def)
  moreover have "fence_loop True (if startswith (strip x) ''```'' then \<not> ic else ic) (y # ys @ blank # rest)
           = y # ys @ ''```'' # fence_loop False False (blank # rest)"
    using Cons.IH Cons.prems by simp
  ultimately show ?case by simp
qed

lemma fence_block:
  assumes "strip L = ''pie showData''"
    and "list_all (\<lambda>l. strip l \<noteq> []) ys" and "strip blank = []"
    and "rest = [] \<or> \<not> startswith (hd rest) ''    ''"
  shows "fence_loop False False (L # ys @ blank # rest)
           = ''```mermaid'' # L # ys @ ''```'' # fence_loop False False (blank # rest)"
proof (cases ys)
  case Nil
  have "fence_step False False L (blank # rest) = ([''```mermaid'', L, ''```''], False, False)"
    using assms(1,3,4) by (cases rest) (auto simp: fence_step_def Let_def chart_starters_def)
  then show ?thesis using Nil by simp
next
  case (Cons y ys')
  have "fence_step False False L (y # ys' @ blank # rest) = ([''```mermaid'', L], True, True)"
    using assms(1,2) Cons by (auto simp: fence_step_def Let_def chart_starters_def)
  moreover have "fence_loop True True (y # ys' @ blank # rest)
           = y # ys' @ ''```'' # fence_loop False False (blank # rest)"
    using fence_block_tail[of ys' blank rest True y] assms(2,3,4) Cons by simp
  ultimately show ?thesis using Cons by simp
qed

text \<open>A fence that is open is closed somewhere further on, at the latest after the last line.\<close>

lemma fence_loop_closes: "''```'' \<in> set (fence_loop True ic ls)"
proof (induction ls arbitrary: ic)
  case Nil
  then show ?case by simp
next
  case (Cons x xs)
  obtain out im' ic' where st: "fence_step True ic x xs = (out, im', ic')"
    by (cases "fence_step True ic x xs") auto
  show ?case
  proof (cases im')
    case True
    then show ?thesis using st Cons.IH[of ic'] by simp
  next
    case False
    then have "''```'' \<in> set out" using st by (auto simp: fence_step_def Let_def split: if_splits)
    then show ?thesis using st by simp
  qed
qed

text \<open>
  When the blank line is followed by a line that starts with four spaces, the block goes on
  and the closing fence comes later.
\<close>

lemma clean_response_blank_then_indented:
  "clean_response (''pie showData'' @ nl @ ''    a'' @ nl @ nl @ ''    b'')
     = ''```mermaid'' @ nl @ ''pie showData'' @ nl @ ''    a'' @ nl @ nl @ ''    b'' @ nl @ ''```''"
  by code_simp

text \<open>
  C5, as amended.  Take the text left once the leaked special tokens are stripped, and in it
  a line whose stripped content is \<open>pie showData\<close>, reached by the scan outside any fence
  (\<open>in_mermaid\<close> and \<open>in_code\<close> both false), followed by non-blank lines (the indented lines
  of the block) and then by a blank line that is the last line or is followed by a line not
  starting with four spaces.  Then the output holds, as whole lines and in this order, the
  line \<open>```mermaid\<close>, the \<open>pie showData\<close> line, the block lines and the line \<open>```\<close>.
\<close>

theorem clean_response_fences:
  assumes lines: "split_on (CHR 0x0A) (strip_tokens content) = pre @ L # ind @ blank # rest"
    and st: "fence_state False False (pre @ L # ind @ blank # rest) (length pre) = (False, False)"
    and L: "strip L = ''pie showData''"
    and ind: "list_all (\<lambda>l. strip l \<noteq> []) ind"
    and blank: "strip blank = []"
    and look: "rest = [] \<or> \<not> startswith (hd rest) ''    ''"
  shows "\<exists>P S. clean_response content = P @ join nl (''```mermaid'' # L # ind @ [''```'']) @ S
           \<and> (P = [] \<or> last P = CHR 0x0A) \<and> (S = [] \<or> hd S = CHR 0x0A)"
proof -
  define M where "M = ''```mermaid'' # L # ind @ [''```'']"
  define T where "T = fence_loop False False (blank # rest)"
  from fence_loop_split[of False False "pre @ L # ind @ blank # rest" "length pre"] st
  obtain A where "fence_loop False False (pre @ L # ind @ blank # rest)
      = A @ fence_loop False False (L # ind @ blank # rest)" by auto
  then have out: "fence_loop False False (pre @ L # ind @ blank # rest) = A @ M @ T"
    using fence_block[OF L ind blank look] by (simp add: M_def T_def)
  have Tne: "T \<noteq> []"
    by (cases "fence_step False False blank rest") (auto simp: T_def fence_step_def Let_def)
  have Mne: "M \<noteq> []" by (simp add: M_def)
  define m where "m = join nl M"
  define p where "p = (if A = [] then [] else join nl A @ nl)"
  define s where "s = nl @ join nl T"
  have j: "join nl (A @ M @ T) = p @ m @ s"
    using Tne Mne by (simp add: join_append p_def m_def s_def)
  have m_hd: "m = ''```mermaid'' @ nl @ join nl (L # ind @ [''```''])"
    by (simp add: m_def M_def join_Cons)
  have m_last: "\<exists>q. m = q @ ''```''"
    using join_snoc[of nl "''```mermaid'' # L # ind" "''```''"] by (simp add: m_def M_def)
  have mne: "m \<noteq> []" using m_hd by simp
  have h: "\<not> isspace (hd m)" unfolding m_hd by (simp add: isspace_def)
  have l: "\<not> isspace (last m)" using m_last by (auto simp: isspace_def)
  have cr: "clean_response content = dropWhile isspace p @ m @ rev (dropWhile isspace (rev s))"
    unfolding clean_response_def lines out j by (rule strip_mid[OF mne h l])
  have P: "dropWhile isspace p = [] \<or> last (dropWhile isspace p) = CHR 0x0A"
  proof (cases "A = []")
    case True
    then show ?thesis by (simp add: p_def)
  next
    case False
    then have "last p = CHR 0x0A" by (simp add: p_def nl_def)
    then show ?thesis using dropWhile_last[of isspace p] by auto
  qed
  have "hd s = CHR 0x0A" by (simp add: s_def nl_def)
  then have S: "rev (dropWhile isspace (rev s)) = [] \<or> hd (rev (dropWhile isspace (rev s))) = CHR 0x0A"
    using rev_dropWhile_rev_hd[of isspace s] by auto
  from cr P S show ?thesis unfolding m_def M_def by blast
qed

theorem clean_response_fences_witness:
  "split_on (CHR 0x0A) (strip_tokens (''Here:'' @ nl @ ''pie showData'' @ nl @ ''    A : 1'' @ nl @ ''    B : 2'' @ nl @ nl @ ''done''))
     = [''Here:''] @ ''pie showData'' # [''    A : 1'', ''    B : 2''] @ [] # [''done'']
   \<and> fence_state False False ([''Here:''] @ ''pie showData'' # [''    A : 1'', ''    B : 2''] @ [] # [''done'']) (length [''Here:'']) = (False, False)
   \<and> (\<exists>P S. clean_response (''Here:'' @ nl @ ''pie showData'' @ nl @ ''    A : 1'' @ nl @ ''    B : 2'' @ nl @ nl @ ''done'')
         = P @ join nl (''```mermaid'' # ''pie showData'' # [''    A : 1'', ''    B : 2''] @ [''```'']) @ S
           \<and> (P = [] \<or> last P = CHR 0x0A) \<and> (S = [] \<or> hd S = CHR 0x0A))"
proof -
  let ?c = "''Here:'' @ nl @ ''pie showData'' @ nl @ ''    A : 1'' @ nl @ ''    B : 2'' @ nl @ nl @ ''done''"
  have 1: "split_on (CHR 0x0A) (strip_tokens ?c)
     = [''Here:''] @ ''pie showData'' # [''    A : 1'', ''    B : 2''] @ [] # [''done'']"
    by code_simp
  have 2: "fence_state False False ([''Here:''] @ ''pie showData'' # [''    A : 1'', ''    B : 2''] @ [] # [''done'']) (length [''Here:'']) = (False, False)"
    by code_simp
  have 3: "strip ''pie showData'' = ''pie showData''" by code_simp
  have 4: "list_all (\<lambda>l. strip l \<noteq> []) [''    A : 1'', ''    B : 2'']" by code_simp
  have 5: "strip [] = []" by code_simp
  have 6: "[''done''] = [] \<or> \<not> startswith (hd [''done'']) ''    ''" by simp
  from clean_response_fences[OF 1 2 3 4 5 6] 1 2 show ?thesis by blast
qed

text \<open>
  C5 as stated fails when a leaked \<open><|im_start|>\<close> token comes before the block: everything
  from the token on is deleted first, the block with it.
\<close>

theorem clean_response_counterexample:
  "split_on (CHR 0x0A) (''<|im_start|>assistant'' @ nl @ ''pie showData'' @ nl @ ''    A : 1'' @ nl @ nl @ ''done'')
     = [''<|im_start|>assistant'', ''pie showData'', ''    A : 1'', [], ''done'']
   \<and> fence_state False False [''<|im_start|>assistant'', ''pie showData'', ''    A : 1'', [], ''done''] 1 = (False, False)
   \<and> clean_response (''<|im_start|>assistant'' @ nl @ ''pie showData'' @ nl @ ''    A : 1'' @ nl @ nl @ ''done'') = []"
  by code_simp

subsection \<open>Tool execution\<close>

text \<open>
  C8: a response text of at most 6000 characters is returned unchanged; a longer one is cut
  to its first 6000 characters, followed by the truncation marker (a newline and
  \<open>... (truncated)\<close>).
\<close>

theorem execute_tool_truncates:
  "execute_tool (ToolText t) =
     (if length t \<le> 6000 then t else take 6000 t @ CHR 0x0A # ''... (truncated)'')"
  by (simp add: execute_tool_def truncation_marker_def)

theorem execute_tool_truncates_witness:
  "execute_tool (ToolText (replicate 6001 (CHR ''x''))) = replicate 6000 (CHR ''x'') @ CHR 0x0A # ''... (truncated)''
   \<and> execute_tool (ToolText (replicate 6000 (CHR ''x''))) = replicate 6000 (CHR ''x'')"
  using execute_tool_truncates[of "replicate 6001 (CHR ''x'')"]
        execute_tool_truncates[of "replicate 6000 (CHR ''x'')"]
  by simp

subsection \<open>Number formatting\<close>

lemma int_div_less_iff:
  assumes "0 < (b::int)"
  shows "a div b < K \<longleftrightarrow> a < K * b"
proof
  assume "a div b < K"
  then have "a div b + 1 \<le> K" by simp
  then have 1: "(a div b + 1) * b \<le> K * b" using assms by (simp add: mult_right_mono)
  have 2: "a = (a div b) * b + a mod b" by simp
  have 3: "a mod b < b" using assms by simp
  have "(a div b + 1) * b = (a div b) * b + b" by (simp add: algebra_simps)
  then show "a < K * b" using 1 2 3 by linarith
next
  assume h: "a < K * b"
  show "a div b < K"
  proof (rule ccontr)
    assume "\<not> a div b < K"
    then have "K \<le> a div b" by simp
    then have 1: "K * b \<le> (a div b) * b" using assms by (simp add: mult_right_mono)
    have 2: "a = (a div b) * b + a mod b" by simp
    have 3: "0 \<le> a mod b" using assms by simp
    from 1 2 3 h show False by linarith
  qed
qed

lemma round_half_even_le:
  assumes "0 < den" and "num \<le> K * den"
  shows "round_half_even num den \<le> K"
proof (cases "num = K * den")
  case True
  then show ?thesis using assms(1) by (simp add: round_half_even_def Let_def)
next
  case False
  then have "num < K * den" using assms(2) by simp
  then have "num div den < K" using assms(1) by (simp add: int_div_less_iff)
  then show ?thesis by (auto simp: round_half_even_def Let_def)
qed

lemma round_half_even_nonneg:
  assumes "0 < den" and "0 \<le> num"
  shows "0 \<le> round_half_even num den"
proof -
  have "0 \<le> num div den" using assms by (simp add: pos_imp_zdiv_nonneg_iff)
  then show ?thesis by (auto simp: round_half_even_def Let_def)
qed

lemma isdigit_char_of: "list_all (\<lambda>k. isdigit (char_of (48 + k))) [0..(9::int)]"
  by code_simp

lemma str_nat_digit:
  assumes "0 \<le> n" and "n < 10"
  shows "\<exists>d. str_nat n = [d] \<and> isdigit d"
proof -
  have s: "str_nat n = [char_of (48 + n)]" using assms(2) by (subst str_nat.simps) simp
  have "n \<in> set [0..9]" using assms by simp
  then have "isdigit (char_of (48 + n))"
    using isdigit_char_of unfolding list_all_iff by blast
  then show ?thesis using s by simp
qed

lemma str_nat_digits: "0 \<le> n \<Longrightarrow> str_nat n \<noteq> [] \<and> list_all isdigit (str_nat n)"
proof (induction n rule: str_nat.induct)
  case (1 n)
  show ?case
  proof (cases "n < 10")
    case True
    then show ?thesis using str_nat_digit[of n] "1.prems" by auto
  next
    case False
    have "0 \<le> n div 10" using "1.prems" by simp
    then have ih: "str_nat (n div 10) \<noteq> [] \<and> list_all isdigit (str_nat (n div 10))"
      using "1.IH"[OF False] by simp
    have "0 \<le> n mod 10" "n mod 10 < 10" by simp_all
    then obtain d where d: "str_nat (n mod 10) = [d]" "isdigit d"
      using str_nat_digit by blast
    have "str_nat (n mod 10) = [char_of (48 + n mod 10)]"
      by (subst str_nat.simps) simp
    then have d': "[char_of (48 + n mod 10)] = [d]" using d(1) by simp
    have "str_nat n = str_nat (n div 10) @ [char_of (48 + n mod 10)]"
      using False by (subst str_nat.simps) simp
    then show ?thesis using ih d' d(2) by simp
  qed
qed

lemma format_1f_shape:
  assumes "0 \<le> m"
  shows "\<exists>ip d. format_1f (False, m, e) = ip @ ''.'' @ [d]
           \<and> ip \<noteq> [] \<and> list_all isdigit ip \<and> isdigit d"
proof -
  define t where "t = round_half_even (10 * m * 2 ^ nat e) (2 ^ nat (- e))"
  have t: "0 \<le> t" unfolding t_def using assms by (intro round_half_even_nonneg) simp_all
  have f: "format_1f (False, m, e) = str_nat (t div 10) @ ''.'' @ str_nat (t mod 10)"
    by (simp add: format_1f_def t_def Let_def)
  have "0 \<le> t div 10" using t by simp
  then have ip: "str_nat (t div 10) \<noteq> []" "list_all isdigit (str_nat (t div 10))"
    using str_nat_digits by auto
  have "0 \<le> t mod 10" "t mod 10 < 10" by simp_all
  then obtain d where d: "str_nat (t mod 10) = [d]" "isdigit d" using str_nat_digit by blast
  show ?thesis using f ip d by auto
qed

lemma floor_log2_bounds:
  "1 \<le> k \<Longrightarrow> 0 \<le> floor_log2 k \<and> 2 ^ nat (floor_log2 k) \<le> k \<and> k < 2 * 2 ^ nat (floor_log2 k)"
proof (induction k rule: floor_log2.induct)
  case (1 n)
  show ?case
  proof (cases "n < 2")
    case True
    then have n: "n = 1" using "1.prems" by simp
    have "floor_log2 n = 0" using True by (subst floor_log2.simps) simp
    then show ?thesis using n by simp
  next
    case False
    then have "1 \<le> n div 2" by simp
    with "1.IH"[OF False] have ih: "0 \<le> floor_log2 (n div 2)"
      "2 ^ nat (floor_log2 (n div 2)) \<le> n div 2"
      "n div 2 < 2 * 2 ^ nat (floor_log2 (n div 2))" by auto
    have fl: "floor_log2 n = 1 + floor_log2 (n div 2)"
      using False by (subst floor_log2.simps) simp
    have n1: "nat (floor_log2 n) = Suc (nat (floor_log2 (n div 2)))"
      using ih(1) fl by simp
    define p :: int where "p = 2 ^ nat (floor_log2 (n div 2))"
    have pw: "2 ^ nat (floor_log2 n) = 2 * p" unfolding n1 p_def by simp
    have a: "2 * p \<le> n" using ih(2) unfolding p_def by linarith
    have b: "n < 2 * (2 * p)" using ih(3) unfolding p_def by linarith
    show ?thesis unfolding pw using a b ih(1) fl by simp
  qed
qed

lemma floor_log2_less:
  assumes "1 \<le> k" and "k < 2 ^ j"
  shows "floor_log2 k < int j"
proof (rule ccontr)
  assume "\<not> floor_log2 k < int j"
  then have "j \<le> nat (floor_log2 k)" by simp
  then have "(2::int) ^ j \<le> 2 ^ nat (floor_log2 k)" by (rule power_increasing) simp
  then show False using floor_log2_bounds[OF assms(1)] assms(2) by linarith
qed

lemma true_div_finite:
  assumes "0 < b" and "b \<le> a" and "a div b < 2 ^ 1023"
  shows "\<exists>m sh. true_div a b = Inr (False, m, sh) \<and> 0 \<le> m"
proof -
  define e where "e = floor_log2 (a div b)"
  define sh where "sh = e - 52"
  define m where "m = round_half_even (a * 2 ^ nat (- sh)) (b * 2 ^ nat sh)"
  have q1: "1 \<le> a div b" using assms(1,2) pos_imp_zdiv_pos_iff[of b a] by simp
  have e0: "0 \<le> e" and hi: "a div b < 2 * 2 ^ nat e"
    using floor_log2_bounds[OF q1] by (auto simp: e_def)
  have e1: "e < 1023" using floor_log2_less[OF q1 assms(3)] by (simp add: e_def)
  have apos: "0 < a" using assms by simp
  have lq: "log2_quot \<bar>a\<bar> \<bar>b\<bar> = e" using assms apos by (simp add: log2_quot_def e_def)
  have mx: "max e (- 1022) = e" using e0 by simp
  have td: "true_div a b = (if 2 ^ 1024 \<le> m * 2 ^ nat sh then Inl OverflowError else Inr (False, m, sh))"
    using assms(1) apos unfolding true_div_def Let_def lq mx m_def sh_def by simp
  have den: "0 < b * 2 ^ nat sh" using assms(1) by simp
  have ab: "a < (2 * 2 ^ nat e) * b"
    using hi assms(1) by (simp only: int_div_less_iff)
  define c :: int where "c = 2 ^ 53"
  have c53: "c = 2 ^ 53" by (rule c_def)
  have num: "a * 2 ^ nat (- sh) \<le> c * (b * 2 ^ nat sh)"
  proof (cases "0 \<le> sh")
    case True
    then have "Suc (nat e) = 53 + nat sh" using e0 by (simp add: sh_def)
    then have "(2::int) ^ Suc (nat e) = 2 ^ (53 + nat sh)" by (rule arg_cong)
    then have eq: "(2::int) * 2 ^ nat e = c * 2 ^ nat sh"
      unfolding c_def by (simp only: power_add power_Suc)
    have "a < (c * 2 ^ nat sh) * b" using ab unfolding eq .
    also have "\<dots> = c * (b * 2 ^ nat sh)" by (simp only: ac_simps)
    finally have "a \<le> c * (b * 2 ^ nat sh)" by simp
    moreover have "nat (- sh) = 0" using True by simp
    ultimately show ?thesis by simp
  next
    case False
    then have "53 = Suc (nat e) + nat (- sh)" using e0 by (simp add: sh_def)
    then have "(2::int) ^ 53 = 2 ^ (Suc (nat e) + nat (- sh))" by (rule arg_cong)
    then have p: "c = (2 * 2 ^ nat e) * 2 ^ nat (- sh)"
      unfolding c_def by (simp only: power_add power_Suc)
    have "a * 2 ^ nat (- sh) \<le> ((2 * 2 ^ nat e) * b) * 2 ^ nat (- sh)"
      using ab by (intro mult_right_mono) simp_all
    also have "\<dots> = ((2 * 2 ^ nat e) * 2 ^ nat (- sh)) * b" by (simp only: ac_simps)
    also have "\<dots> = c * b" unfolding p ..
    finally have "a * 2 ^ nat (- sh) \<le> c * b" .
    moreover have "nat sh = 0" using False by simp
    ultimately show ?thesis by simp
  qed
  have m53: "m \<le> c" unfolding m_def by (rule round_half_even_le[OF den num])
  have m0: "0 \<le> m" unfolding m_def using apos den by (intro round_half_even_nonneg) simp_all
  have c0: "0 \<le> c" unfolding c_def by simp
  have "nat sh \<le> 970" using e1 by (simp add: sh_def)
  then have "(2::int) ^ nat sh \<le> 2 ^ 970" by (intro power_increasing) simp_all
  then have "m * 2 ^ nat sh \<le> c * 2 ^ 970"
    using m53 m0 c0 by (intro mult_mono) simp_all
  also have "\<dots> = (2::int) ^ (53 + 970)" unfolding c_def by (simp only: power_add)
  also have "\<dots> < (2::int) ^ 1024" by (intro power_strict_increasing) simp_all
  finally have "\<not> 2 ^ 1024 \<le> m * 2 ^ nat sh" by (simp only: not_le)
  then show ?thesis using td m0 by (simp only: if_False) blast
qed

lemma round_half_even_ge:
  assumes "0 < den" and "K * den \<le> num"
  shows "K \<le> round_half_even num den"
proof -
  have "K \<le> num div den"
  proof (rule ccontr)
    assume "\<not> K \<le> num div den"
    then have "num div den < K" by simp
    then have "num < K * den" using assms(1) by (simp only: int_div_less_iff)
    then show False using assms(2) by simp
  qed
  then show ?thesis by (auto simp: round_half_even_def Let_def)
qed

lemma floor_log2_ge:
  assumes "1 \<le> k" and "2 ^ j \<le> k"
  shows "int j \<le> floor_log2 k"
proof (rule ccontr)
  assume "\<not> int j \<le> floor_log2 k"
  then have "floor_log2 k < int j" by simp
  moreover have "0 \<le> floor_log2 k" using floor_log2_bounds[OF assms(1)] by simp
  ultimately have "nat (floor_log2 k) < j" by (simp add: nat_less_iff)
  then have "Suc (nat (floor_log2 k)) \<le> j" by simp
  then have "(2::int) ^ Suc (nat (floor_log2 k)) \<le> 2 ^ j" by (intro power_increasing) simp_all
  then show False using floor_log2_bounds[OF assms(1)] assms(2) by simp
qed

text \<open>The significand and exponent that \<open>true_div\<close> computes for a quotient of at least 1.\<close>

lemma true_div_unfold:
  assumes "0 < b" and "b \<le> a"
  shows "true_div a b =
     (if 2 ^ 1024 \<le> round_half_even (a * 2 ^ nat (52 - floor_log2 (a div b)))
                                       (b * 2 ^ nat (floor_log2 (a div b) - 52))
                      * 2 ^ nat (floor_log2 (a div b) - 52)
      then Inl OverflowError
      else Inr (False, round_half_even (a * 2 ^ nat (52 - floor_log2 (a div b)))
                                        (b * 2 ^ nat (floor_log2 (a div b) - 52)),
                floor_log2 (a div b) - 52))"
proof -
  have q1: "1 \<le> a div b" using assms pos_imp_zdiv_pos_iff[of b a] by simp
  have e0: "0 \<le> floor_log2 (a div b)" using floor_log2_bounds[OF q1] by simp
  have apos: "0 < a" using assms by simp
  have lq: "log2_quot \<bar>a\<bar> \<bar>b\<bar> = floor_log2 (a div b)" using assms apos by (simp add: log2_quot_def)
  have mx: "max (floor_log2 (a div b)) (- 1022) = floor_log2 (a div b)" using e0 by simp
  have neg: "- (floor_log2 (a div b) - 52) = 52 - floor_log2 (a div b)" by simp
  show ?thesis
    using assms(1) apos unfolding true_div_def Let_def lq mx neg by simp
qed


lemma true_div_overflow_iff:
  assumes "0 < b" and "b \<le> a"
  shows "true_div a b = Inl OverflowError \<longleftrightarrow> (2 ^ 1024 - 2 ^ 970) * b \<le> a"
proof -
  define e where "e = floor_log2 (a div b)"
  define m where "m = round_half_even (a * 2 ^ nat (52 - e)) (b * 2 ^ nat (e - 52))"
  define P :: int where "P = 2 ^ 970"
  define Q :: int where "Q = 2 ^ 53 - 1"
  have P0: "0 < P" by (simp add: P_def)
  have T: "(2 ^ 1024 - 2 ^ 970 :: int) = (2 * Q + 1) * P"
  proof -
    have "(2::int) ^ 1024 = 2 ^ (54 + 970)" by simp
    also have "\<dots> = 2 ^ 54 * P" unfolding P_def by (simp only: power_add)
    finally have "(2 ^ 1024 - 2 ^ 970 :: int) = (2 ^ 54 - 1) * P"
      unfolding P_def by (simp add: algebra_simps)
    moreover have "(2 ^ 54 - 1 :: int) = 2 * Q + 1" by (simp add: Q_def)
    ultimately show ?thesis by simp
  qed
  have p1024: "(2 ^ 1024 :: int) = (2 * Q + 2) * P"
  proof -
    have "(2::int) ^ 1024 = 2 ^ (54 + 970)" by simp
    also have "\<dots> = 2 ^ 54 * P" unfolding P_def by (simp only: power_add)
    also have "(2 ^ 54 :: int) = 2 * Q + 2" by (simp add: Q_def)
    finally show ?thesis .
  qed
  have p1023: "(2 ^ 1023 :: int) = (Q + 1) * P"
  proof -
    have "(2::int) ^ 1023 = 2 ^ (53 + 970)" by simp
    also have "\<dots> = 2 ^ 53 * P" unfolding P_def by (simp only: power_add)
    also have "(2 ^ 53 :: int) = Q + 1" by (simp add: Q_def)
    finally show ?thesis .
  qed
  have Q0: "0 < Q" by (simp add: Q_def)
  have td: "true_div a b = Inl OverflowError \<longleftrightarrow> 2 ^ 1024 \<le> m * 2 ^ nat (e - 52)"
    unfolding true_div_unfold[OF assms] m_def e_def by simp
  have q1: "1 \<le> a div b" using assms pos_imp_zdiv_pos_iff[of b a] by simp
  have e0: "0 \<le> e" and lo: "2 ^ nat e \<le> a div b" and hi: "a div b < 2 * 2 ^ nat e"
    using floor_log2_bounds[OF q1] by (auto simp: e_def)
  have lo': "2 ^ nat e * b \<le> a"
  proof (rule ccontr)
    assume "\<not> 2 ^ nat e * b \<le> a"
    then have "a < 2 ^ nat e * b" by simp
    then have "a div b < 2 ^ nat e" using assms(1) by (simp only: int_div_less_iff)
    then show False using lo by simp
  qed
  have hi': "a < (2 * 2 ^ nat e) * b" using hi assms(1) by (simp only: int_div_less_iff)
  consider "e < 1023" | "e = 1023" | "1024 \<le> e" by linarith
  then show ?thesis
  proof cases
    case 1
    then have "Suc (nat e) \<le> 1023" using e0 by simp
    then have "(2::int) ^ Suc (nat e) \<le> 2 ^ 1023" by (intro power_increasing) simp_all
    then have le: "2 * 2 ^ nat e \<le> (Q + 1) * P" unfolding p1023 by simp
    have "a div b < 2 ^ 1023" using hi le unfolding p1023 by linarith
    from true_div_finite[OF assms this] have no: "true_div a b \<noteq> Inl OverflowError" by auto
    have "(2 * 2 ^ nat e) * b \<le> ((Q + 1) * P) * b" using le assms(1) by (intro mult_right_mono) simp_all
    also have "\<dots> \<le> ((2 * Q + 1) * P) * b"
      using Q0 P0 assms(1) by (intro mult_right_mono) simp_all
    finally have "a < ((2 * Q + 1) * P) * b" using hi' by linarith
    then show ?thesis using no unfolding T by simp
  next
    case 3
    then have n: "nat (52 - e) = 0" by simp
    define s where "s = nat (e - 52)"
    have "int (nat e) = int (52 + s)" using 3 by (simp add: s_def)
    then have "nat e = 52 + s" by (simp only: int_int_eq)
    with s_def have s: "nat (e - 52) = s" "nat e = 52 + s" by simp_all
    have pe: "(2::int) ^ nat e = 2 ^ 52 * 2 ^ s" unfolding s(2) by (simp only: power_add)
    have "2 ^ 52 * (b * 2 ^ s) \<le> a * 2 ^ nat (52 - e)"
      using lo' unfolding pe n by (simp add: ac_simps)
    then have "2 ^ 52 \<le> m" unfolding m_def s(1)
      using assms(1) by (intro round_half_even_ge) simp_all
    then have "2 ^ 52 * 2 ^ s \<le> m * 2 ^ s" by (intro mult_right_mono) simp_all
    then have "2 ^ nat e \<le> m * 2 ^ nat (e - 52)" unfolding pe s(1) .
    moreover have "(2::int) ^ 1024 \<le> 2 ^ nat e" using 3 by (intro power_increasing) simp_all
    ultimately have ov: "2 ^ 1024 \<le> m * 2 ^ nat (e - 52)" by linarith
    have "((2 * Q + 1) * P) * b \<le> ((2 * Q + 2) * P) * b"
      using P0 assms(1) by (intro mult_right_mono) simp_all
    also have "\<dots> = 2 ^ 1024 * b" unfolding p1024 ..
    also have "\<dots> \<le> 2 ^ nat e * b"
      using \<open>(2::int) ^ 1024 \<le> 2 ^ nat e\<close> assms(1) by (intro mult_right_mono) simp_all
    finally have "((2 * Q + 1) * P) * b \<le> a" using lo' by linarith
    then show ?thesis using ov td unfolding T by simp
  next
    case 2
    have n: "nat (52 - e) = 0" and s: "nat (e - 52) = 971" and ne: "nat e = 1023" using 2 by simp_all
    define D where "D = b * (2 * P)"
    have D0: "0 < D" using assms(1) P0 by (simp add: D_def)
    have p971: "(2 ^ 971 :: int) = 2 * P" unfolding P_def by (simp only: power_Suc[symmetric]) simp
    have m: "m = round_half_even a D" unfolding m_def n s D_def p971 by simp
    have aD: "a < (Q + 1) * D"
    proof -
      have "(2 * 2 ^ nat e :: int) = 2 ^ 1024" unfolding ne by simp
      then have "a < ((2 * Q + 2) * P) * b" using hi' unfolding p1024 by simp
      also have "\<dots> = (Q + 1) * D" unfolding D_def by (simp add: algebra_simps)
      finally show ?thesis .
    qed
    have mQ: "m \<le> Q + 1" unfolding m using D0 aD by (intro round_half_even_le) simp_all
    have ov: "2 ^ 1024 \<le> m * 2 ^ nat (e - 52) \<longleftrightarrow> Q + 1 \<le> m"
    proof -
      have a1: "m * 2 ^ nat (e - 52) = m * (2 * P)" unfolding s p971 ..
      have a2: "(2 ^ 1024 :: int) = (Q + 1) * (2 * P)" unfolding p1024 by (simp add: algebra_simps)
      have "0 < 2 * P" using P0 by simp
      then have "((Q + 1) * (2 * P) \<le> m * (2 * P)) = (Q + 1 \<le> m)"
        by (simp only: mult_le_cancel_right) simp
      then show ?thesis unfolding a1 a2 .
    qed
    have key: "Q + 1 \<le> m \<longleftrightarrow> (2 * Q + 1) * (b * P) \<le> a"
    proof (cases "Q * D \<le> a")
      case False
      then have "a \<le> Q * D" by simp
      then have "m \<le> Q" unfolding m using D0 by (intro round_half_even_le) simp_all
      moreover have "a < (2 * Q + 1) * (b * P)"
      proof -
        define X where "X = b * P"
        define Y where "Y = (2 * Q) * X"
        have 1: "Q * D = Y" unfolding D_def Y_def X_def by (simp add: algebra_simps)
        have 2: "0 < X" unfolding X_def using assms(1) P0 by simp
        have 3: "(2 * Q + 1) * X = Y + X" unfolding Y_def by (simp add: algebra_simps)
        have "a < Q * D" using False by simp
        then have "a < Y + X" using 1 2 by linarith
        then have "a < (2 * Q + 1) * X" using 3 by simp
        then show ?thesis unfolding X_def .
      qed
      ultimately show ?thesis by simp
    next
      case True
      have dq: "a div D = Q"
      proof -
        have "a div D < Q + 1" using aD D0 by (simp only: int_div_less_iff)
        moreover have "\<not> a div D < Q" using True D0 by (simp only: int_div_less_iff not_less)
        ultimately show ?thesis by simp
      qed
      have ar: "a = Q * D + a mod D" using dq mult_div_mod_eq[of D a] by (simp add: mult.commute)
      have oddQ: "odd Q" by (simp add: Q_def)
      have "m = (if 2 * (a mod D) < D then Q else Q + 1)"
        unfolding m round_half_even_def Let_def dq using oddQ by auto
      then have "Q + 1 \<le> m \<longleftrightarrow> D \<le> 2 * (a mod D)" by simp
      also have "\<dots> \<longleftrightarrow> 2 * (Q * D) + D \<le> 2 * a" using ar by linarith
      also have "2 * (Q * D) + D = 2 * ((2 * Q + 1) * (b * P))" unfolding D_def by (simp add: algebra_simps)
      finally show ?thesis by simp
    qed
    have fin: "((2 * Q + 1) * P) * b = (2 * Q + 1) * (b * P)" by (simp only: ac_simps)
    from td ov key have "true_div a b = Inl OverflowError \<longleftrightarrow> (2 * Q + 1) * (b * P) \<le> a"
      by blast
    then show ?thesis unfolding T fin .
  qed
qed

lemma true_div_cases:
  assumes "0 < b" and "b \<le> a"
  shows "true_div a b = Inl OverflowError \<or> (\<exists>m sh. true_div a b = Inr (False, m, sh) \<and> 0 \<le> m)"
proof -
  have "0 \<le> round_half_even (a * 2 ^ nat (52 - floor_log2 (a div b)))
                               (b * 2 ^ nat (floor_log2 (a div b) - 52))"
    using assms by (intro round_half_even_nonneg) simp_all
  then show ?thesis unfolding true_div_unfold[OF assms] by simp
qed

lemma fmt_int_suffix:
  assumes "0 < b" and "b \<le> n" and "n < (2 ^ 1024 - 2 ^ 970) * b"
  shows "\<exists>ip d. map_sum id (\<lambda>d. format_1f d @ sfx) (true_div n b) = Inr (ip @ ''.'' @ [d] @ sfx)
            \<and> ip \<noteq> [] \<and> list_all isdigit ip \<and> isdigit d"
proof -
  have "true_div n b \<noteq> Inl OverflowError"
    using assms(3) unfolding true_div_overflow_iff[OF assms(1,2)] by simp
  with true_div_cases[OF assms(1,2)] obtain m sh where
    td: "true_div n b = Inr (False, m, sh)" and m: "0 \<le> m" by blast
  from format_1f_shape[OF m, of sh] obtain ip d where
    "format_1f (False, m, sh) = ip @ ''.'' @ [d]" "ip \<noteq> []" "list_all isdigit ip" "isdigit d"
    by blast
  then show ?thesis using td by auto
qed

lemma small_below_overflow: "n < 1000000 \<Longrightarrow> n < (2 ^ 1024 - 2 ^ 970) * (1000::int)"
proof -
  assume "n < 1000000"
  moreover have "(1000::int) \<le> 2 ^ 1024 - 2 ^ 970" by simp
  then have "1000 * 1000 \<le> (2 ^ 1024 - 2 ^ 970) * (1000::int)" by (intro mult_right_mono) simp_all
  ultimately show ?thesis by linarith
qed




subsection \<open>Tables\<close>

lemma ebind_Inr_iff: "ebind m f = Inr y \<longleftrightarrow> (\<exists>x. m = Inr x \<and> f x = Inr y)"
  by (cases m) (auto simp: ebind_def)

lemma ebind_Inr [simp]: "ebind (Inr x) f = f x"
  by (simp add: ebind_def)

lemma ebind_Inl [simp]: "ebind (Inl e) f = Inl e"
  by (simp add: ebind_def)

lemma rows_from_length: "rows_from row i rs = Inr ls \<Longrightarrow> length ls = length rs"
proof (induction rs arbitrary: i ls)
  case Nil
  then show ?case by simp
next
  case (Cons r rs)
  from Cons.prems obtain l ls' where "rows_from row (i + 1) rs = Inr ls'" "ls = l # ls'"
    by (auto simp: ebind_Inr_iff)
  then show ?case using Cons.IH by auto
qed

lemma rows_from_total:
  assumes "\<And>r i. r \<in> set rs \<Longrightarrow> \<exists>l. row i r = Inr l"
  shows "\<exists>ls. rows_from row i rs = Inr ls"
  using assms
proof (induction rs arbitrary: i)
  case Nil
  then show ?case by simp
next
  case (Cons r rs)
  obtain l where l: "row i r = Inr l" using Cons.prems[of r i] by auto
  obtain ls where ls: "rows_from row (i + 1) rs = Inr ls"
    using Cons.IH[of "i + 1"] Cons.prems by auto
  show ?case using l ls by simp
qed

lemma table_lines_length:
  assumes "table_lines header row (VList items) = Inr ls"
  shows "length ls = length header + min 15 (length items)"
proof -
  from assms obtain rows where "rows_from row 1 (take 15 items) = Inr rows" "ls = header @ rows"
    by (auto simp: table_lines_def ebind_Inr_iff)
  then show ?thesis using rows_from_length[of row 1 "take 15 items" rows] by (simp add: min.commute)
qed

lemma table_lines_total:
  assumes "\<And>r i. r \<in> set (take 15 items) \<Longrightarrow> \<exists>l. row i r = Inr l"
  shows "\<exists>rows. table_lines header row (VList items) = Inr (header @ rows)
           \<and> length rows = min 15 (length items)"
proof -
  from rows_from_total[of "take 15 items" row 1] assms obtain rows where
    r: "rows_from row 1 (take 15 items) = Inr rows" by blast
  then have "length rows = min 15 (length items)"
    using rows_from_length[OF r] by (simp add: min.commute)
  then show ?thesis using r by (simp add: table_lines_def)
qed

lemma fmt_int_total:
  assumes "n < (2 ^ 1024 - 2 ^ 970) * 1000000"
  shows "\<exists>s. fmt_int n = Inr s"
proof -
  consider "1000000 \<le> n" | "1000 \<le> n" "n < 1000000" | "n < 1000" by linarith
  then show ?thesis
  proof cases
    case 1
    from fmt_int_suffix[OF _ 1 assms, of "[]"] obtain s where
      "map_sum id (\<lambda>d. format_1f d @ []) (true_div n 1000000) = Inr s" by auto
    then show ?thesis using 1 by (cases "true_div n 1000000") (simp_all add: fmt_int_def)
  next
    case 2
    from fmt_int_suffix[OF _ 2(1) small_below_overflow[OF 2(2)], of "[]"] obtain s where
      "map_sum id (\<lambda>d. format_1f d @ []) (true_div n 1000) = Inr s" by auto
    then show ?thesis using 2 by (cases "true_div n 1000") (simp_all add: fmt_int_def)
  next
    case 3
    then show ?thesis by (simp add: fmt_int_def)
  qed
qed

lemma py_get_dict: "\<exists>v. py_get (VDict kvs) key dflt = Inr v"
  by simp

lemma repos_row_total:
  assumes "repo_record r"
  shows "\<exists>l. repos_row i r = Inr l"
proof -
  from assms obtain kvs where r: "r = VDict kvs" by (cases r) (auto simp: repo_record_def)
  define count where "count = (case map_of kvs ''stargazers_count'' of Some v \<Rightarrow> v | None \<Rightarrow> VInt 0)"
  have "\<exists>s. fmt_number count = Inr s"
  proof (cases "map_of kvs ''stargazers_count''")
    case None
    then have "count = VInt 0" by (simp add: count_def)
    then show ?thesis using fmt_int_total[of 0] by (simp add: fmt_number_def)
  next
    case (Some v)
    then have c: "count = v" by (simp add: count_def)
    show ?thesis
    proof (cases v)
      case VNone
      then show ?thesis using c by (simp add: fmt_number_def)
    next
      case (VBool b)
      then show ?thesis using c fmt_int_total[of 0] fmt_int_total[of 1]
        by (simp add: fmt_number_def)
    next
      case (VInt n)
      then have "n < (2 ^ 1024 - 2 ^ 970) * 1000000" using assms r Some by (simp add: repo_record_def)
      then show ?thesis using c VInt fmt_int_total[of n] by (simp add: fmt_number_def)
    next
      case (VStr s)
      then show ?thesis using assms r Some by (simp add: repo_record_def)
    next
      case (VList xs)
      then show ?thesis using assms r Some by (simp add: repo_record_def)
    next
      case (VDict d)
      then show ?thesis using assms r Some by (simp add: repo_record_def)
    qed
  qed
  then obtain s where "fmt_number count = Inr s" by blast
  then show ?thesis unfolding repos_row_def r by (simp add: count_def Let_def)
qed

lemma issue_cells_total:
  assumes "issue_record r"
  shows "\<exists>l. issue_cells i state r = Inr l"
proof -
  from assms obtain kvs where r: "r = VDict kvs" by (cases r) (auto simp: issue_record_def)
  define user where "user = (case map_of kvs ''user'' of Some v \<Rightarrow> v | None \<Rightarrow> VDict [])"
  have "is_dict user" using assms r by (auto simp: issue_record_def user_def is_dict_def split: option.splits)
  then obtain u where u: "user = VDict u" by (cases user) (auto simp: is_dict_def)
  show ?thesis unfolding issue_cells_def r using u by (simp add: user_def)
qed

lemma issues_row_total: "issue_record r \<Longrightarrow> \<exists>l. issues_row i r = Inr l"
proof -
  assume a: "issue_record r"
  then obtain kvs where r: "r = VDict kvs" by (cases r) (auto simp: issue_record_def)
  show ?thesis unfolding issues_row_def using issue_cells_total[OF a] by (simp add: r)
qed

lemma prs_row_total:
  assumes "pr_record r"
  shows "\<exists>l. prs_row i r = Inr l"
proof -
  from assms have ir: "issue_record r" by (simp add: pr_record_def)
  then obtain kvs where r: "r = VDict kvs" by (cases r) (auto simp: issue_record_def)
  define inner where "inner = (case map_of kvs ''pull_request'' of Some v \<Rightarrow> v | None \<Rightarrow> VDict [])"
  have "is_dict inner" using assms r
    by (auto simp: pr_record_def inner_def is_dict_def split: option.splits)
  then obtain p where p: "inner = VDict p" by (cases inner) (auto simp: is_dict_def)
  have "\<exists>m. merged_of r = Inr m" unfolding merged_of_def r using p by (simp add: inner_def)
  then obtain m where m: "merged_of r = Inr m" by blast
  have "\<exists>st. (if truthy m then Inr ''Merged''
            else ebind (py_get r ''state'' VNone) (\<lambda>st.
                   Inr (if st = VStr ''open'' then ''Open'' else ''Closed''))) = Inr st"
    by (simp add: r)
  then obtain st where st: "(if truthy m then Inr ''Merged''
            else ebind (py_get r ''state'' VNone) (\<lambda>st.
                   Inr (if st = VStr ''open'' then ''Open'' else ''Closed''))) = Inr st" by blast
  show ?thesis unfolding prs_row_def m using st issue_cells_total[OF ir] by simp
qed

text \<open>
  C7: each table renderer emits at most 15 data rows.  Whenever a renderer returns a table
  for a list of items, the table has the two header lines and \<open>min 15 (length items)\<close> data
  rows; and it does return one when the first fifteen items are records it can format.  For
  30 such records that is exactly 15 data rows.
\<close>

theorem table_row_cap:
  "(\<forall>ls. repos_table_lines (VList items) = Inr ls \<longrightarrow> length ls = 2 + min 15 (length items))
   \<and> (\<forall>ls. issues_table_lines (VList items) = Inr ls \<longrightarrow> length ls = 2 + min 15 (length items))
   \<and> (\<forall>ls. prs_table_lines (VList items) = Inr ls \<longrightarrow> length ls = 2 + min 15 (length items))
   \<and> (list_all repo_record (take 15 items) \<longrightarrow>
        (\<exists>rows. repos_table_lines (VList items) = Inr (repos_header @ rows)
           \<and> length rows = min 15 (length items)))
   \<and> (list_all issue_record (take 15 items) \<longrightarrow>
        (\<exists>rows. issues_table_lines (VList items) = Inr (issues_header @ rows)
           \<and> length rows = min 15 (length items)))
   \<and> (list_all pr_record (take 15 items) \<longrightarrow>
        (\<exists>rows. prs_table_lines (VList items) = Inr (prs_header @ rows)
           \<and> length rows = min 15 (length items)))"
proof -
  have 1: "length ls = 2 + min 15 (length items)" if "repos_table_lines (VList items) = Inr ls" for ls
    using table_lines_length[of repos_header repos_row items ls] that
    by (simp add: repos_table_lines_def repos_header_def)
  have 2: "length ls = 2 + min 15 (length items)" if "issues_table_lines (VList items) = Inr ls" for ls
    using table_lines_length[of issues_header issues_row items ls] that
    by (simp add: issues_table_lines_def issues_header_def)
  have 3: "length ls = 2 + min 15 (length items)" if "prs_table_lines (VList items) = Inr ls" for ls
    using table_lines_length[of prs_header prs_row items ls] that
    by (simp add: prs_table_lines_def prs_header_def)
  have 4: "\<exists>rows. repos_table_lines (VList items) = Inr (repos_header @ rows)
           \<and> length rows = min 15 (length items)" if "list_all repo_record (take 15 items)"
    unfolding repos_table_lines_def
    using that repos_row_total by (intro table_lines_total) (auto simp: list_all_iff)
  have 5: "\<exists>rows. issues_table_lines (VList items) = Inr (issues_header @ rows)
           \<and> length rows = min 15 (length items)" if "list_all issue_record (take 15 items)"
    unfolding issues_table_lines_def
    using that issues_row_total by (intro table_lines_total) (auto simp: list_all_iff)
  have 6: "\<exists>rows. prs_table_lines (VList items) = Inr (prs_header @ rows)
           \<and> length rows = min 15 (length items)" if "list_all pr_record (take 15 items)"
    unfolding prs_table_lines_def
    using that prs_row_total by (intro table_lines_total) (auto simp: list_all_iff)
  from 1 2 3 4 5 6 show ?thesis by blast
qed

theorem table_row_cap_witness:
  "list_all repo_record (take 15 (replicate 30 (VDict [(''full_name'', VStr ''a/b''), (''stargazers_count'', VInt 1500)])))
   \<and> (\<exists>rows. repos_table_lines (VList (replicate 30 (VDict [(''full_name'', VStr ''a/b''), (''stargazers_count'', VInt 1500)])))
          = Inr (repos_header @ rows) \<and> length rows = 15)
   \<and> list_all pr_record (take 15 (replicate 30 (VDict [(''user'', VDict [(''login'', VStr ''me'')])])))
   \<and> (\<exists>rows. issues_table_lines (VList (replicate 30 (VDict [(''user'', VDict [(''login'', VStr ''me'')])])))
          = Inr (issues_header @ rows) \<and> length rows = 15)
   \<and> (\<exists>rows. prs_table_lines (VList (replicate 30 (VDict [(''user'', VDict [(''login'', VStr ''me'')])])))
          = Inr (prs_header @ rows) \<and> length rows = 15)"
proof -
  let ?r = "VDict [(''full_name'', VStr ''a/b''), (''stargazers_count'', VInt 1500)]"
  let ?i = "VDict [(''user'', VDict [(''login'', VStr ''me'')])]"
  have a: "list_all repo_record (take 15 (replicate 30 ?r))" by code_simp
  have b: "list_all pr_record (take 15 (replicate 30 ?i))" by code_simp
  have c: "list_all issue_record (take 15 (replicate 30 ?i))" by code_simp
  have l: "min 15 (length (replicate 30 x)) = 15" for x :: val by simp
  from table_row_cap[of "replicate 30 ?r"] a l
  have 1: "\<exists>rows. repos_table_lines (VList (replicate 30 ?r)) = Inr (repos_header @ rows) \<and> length rows = 15"
    by simp
  from table_row_cap[of "replicate 30 ?i"] b c l
  have 2: "\<exists>rows. issues_table_lines (VList (replicate 30 ?i)) = Inr (issues_header @ rows) \<and> length rows = 15"
    and 3: "\<exists>rows. prs_table_lines (VList (replicate 30 ?i)) = Inr (prs_header @ rows) \<and> length rows = 15"
    by simp_all
  from a b 1 2 3 show ?thesis by blast
qed

text \<open>
  A record outside that description makes the renderer raise instead: here an issue whose
  \<open>user\<close> is \<open>null\<close>.
\<close>

lemma issues_table_null_user:
  "issues_table_lines (VList [VDict [(''title'', VStr ''t''), (''user'', VNone)]]) = Inl AttributeError"
  by code_simp

subsection \<open>Direct search\<close>






text \<open>
  The body is taken to be a JSON object, as the API documents it.  A body that is some
  other JSON value has no \<open>get\<close> method, and the exception leaves \<open>_direct_format\<close>.
\<close>

lemma direct_format_body_not_object:
  "direct_format (\<lambda>req. JsonBody (VList [])) [] repos_chart ''table of repos'' = Inl AttributeError"
proof -
  have "extract_search_params ''table of repos'' = (''repos'', ''stars:>1000'', ''stars'')"
    by code_simp
  then show ?thesis by (simp add: direct_format_def Let_def github_api_def)
qed

end
